theory Spec2Isabelle
  imports
    Main
    "HOL-Library.AList"
    "HOL-Library.Multiset"
    "HOL-Library.Char_ord"
    "HOL-Library.List_Lexorder"
    "HOL-Library.Product_Lexorder"
begin

section \<open>Values of the Go program\<close>

text \<open>
  An error value is either one made by a collaborator (its message) or one made by
  \<^verbatim>\<open>xerrors.Errorf("<msg>: %w", err)\<close>, which wraps \<^verbatim>\<open>err\<close> under a message.
  A Go function returning \<^verbatim>\<open>(x, error)\<close> is a value of \<open>error + 'a\<close>; the triple
  returned by the two "latest" functions is kept as a triple whose last component is
  \<open>None\<close> for a nil error.
\<close>

datatype error = errorString string | Errorf string error

text \<open>
  A call either returns or panics at run time (here: a nil pointer dereference).
\<close>

datatype 'a outcome = Panic | Return 'a

text \<open>
  \<^verbatim>\<open>github.ReleaseAsset\<close> and \<^verbatim>\<open>github.RepositoryRelease\<close>, reduced to the fields the
  program reads. The fields are \<^verbatim>\<open>*string\<close> in the client library and the program
  dereferences them without a check; they are taken as present, as the hosting
  provider's answers have them.
\<close>

record ReleaseAsset =
  Name :: string
  BrowserDownloadURL :: string

record RepositoryRelease =
  TagName :: string
  Assets :: "ReleaseAsset list"

record Options =
  Organization :: string
  Repo :: string
  GOOS :: string
  GOARCH :: string
  AssetNameFunc :: "string \<Rightarrow> string \<Rightarrow> string \<Rightarrow> string"
  ExeNameFunc :: "string \<Rightarrow> string \<Rightarrow> string \<Rightarrow> string"
  ReleasesPath :: string

text \<open>
  \<^verbatim>\<open>VersionsImpl\<close>: the options and the GitHub client. Of the client only
  \<^verbatim>\<open>Repositories.ListReleases(ctx, organization, repo, nil)\<close> is used; it is the
  function from organization and repository to the client's answer.
\<close>

record VersionsImpl =
  options :: Options
  client :: "string \<Rightarrow> string \<Rightarrow> error + RepositoryRelease list"

text \<open>
  The packages the program imports and that are not part of the repository, as
  parameters: \<^verbatim>\<open>github.com/Masterminds/semver\<close> (\<open>'v\<close> is \<^verbatim>\<open>semver.Version\<close>,
  \<open>'c\<close> is \<^verbatim>\<open>semver.Constraints\<close>), \<^verbatim>\<open>strings.ToLower\<close>, \<^verbatim>\<open>path.Join\<close>,
  \<^verbatim>\<open>ioutil.ReadDir\<close> (the names of the entries it lists), \<^verbatim>\<open>os.MkdirAll\<close> and
  \<^verbatim>\<open>getter.GetAny\<close> (\<open>None\<close> is the nil error).
\<close>

record ('v, 'c) packages =
  semver_NewVersion :: "string \<Rightarrow> error + 'v"
  semver_NewConstraint :: "string \<Rightarrow> error + 'c"
  Check :: "'c \<Rightarrow> 'v \<Rightarrow> bool"
  LessThan :: "'v \<Rightarrow> 'v \<Rightarrow> bool"
  Original :: "'v \<Rightarrow> string"
  strings_ToLower :: "string \<Rightarrow> string"
  path_Join :: "string list \<Rightarrow> string"
  ioutil_ReadDir :: "string \<Rightarrow> error + string list"
  os_MkdirAll :: "string \<Rightarrow> error option"
  getter_GetAny :: "string \<Rightarrow> string \<Rightarrow> error option"

text \<open>
  A Go \<^verbatim>\<open>map[string]string\<close> is an association list with distinct keys. The order of
  the list is the order in which one \<^verbatim>\<open>range\<close> statement visits the map. Go draws
  that order anew at every \<^verbatim>\<open>range\<close> statement: a statement about one call holds
  for every order of the list, and two calls on one map are given two lists with the
  same entries.
  \<^verbatim>\<open>m[k] = x\<close> is \<open>AList.update k x m\<close>; \<^verbatim>\<open>m[k]\<close> is \<open>index m k\<close>, the empty
  string for a key that is absent.
\<close>

type_synonym catalog = "(string \<times> string) list"

definition index :: "catalog \<Rightarrow> string \<Rightarrow> string" where
  "index m k = (case map_of m k of None \<Rightarrow> '''' | Some x \<Rightarrow> x)"

text \<open>
  \<^verbatim>\<open>strings.TrimLeft(s, cutset)\<close> removes every leading character that occurs in
  \<^verbatim>\<open>cutset\<close>. The program calls it with the cutset \<^verbatim>\<open>"v"\<close> only, a single ASCII
  character, for which working on bytes and on code points agree.
\<close>

definition TrimLeft :: "string \<Rightarrow> string \<Rightarrow> string" where
  "TrimLeft s cutset = dropWhile (\<lambda>c. c \<in> set cutset) s"

section \<open>InRange\<close>

definition InRange :: "('v, 'c) packages \<Rightarrow> string \<Rightarrow> string \<Rightarrow> error + bool" where
  "InRange p version constraint =
     (case semver_NewConstraint p constraint of
        Inl err \<Rightarrow> Inl (Errorf ''Invalid sematic version constraint'' err)
      | Inr c \<Rightarrow>
          (case semver_NewVersion p version of
             Inl err \<Rightarrow> Inl (Errorf ''Invalid sematic version'' err)
           | Inr ver \<Rightarrow> Inr (Check p c ver)))"

section \<open>ListReleases\<close>

text \<open>
  The inner loop over \<^verbatim>\<open>g.Assets\<close>: the first asset whose lower-cased name equals the
  lower-cased name computed by \<^verbatim>\<open>AssetNameFunc\<close> is stored under the tag and the loop
  is left (\<^verbatim>\<open>break\<close>).
\<close>

fun ListReleases_assets ::
  "('v, 'c) packages \<Rightarrow> VersionsImpl \<Rightarrow> RepositoryRelease \<Rightarrow> ReleaseAsset list \<Rightarrow> catalog \<Rightarrow> catalog"
where
  "ListReleases_assets p v g [] tags = tags"
| "ListReleases_assets p v g (a # as) tags =
     (let tag = TrimLeft (TagName g) ''v'';
          fn = AssetNameFunc (options v) tag (GOOS (options v)) (GOARCH (options v))
      in if strings_ToLower p (Name a) = strings_ToLower p fn
         then AList.update (TagName g) (BrowserDownloadURL a) tags
         else ListReleases_assets p v g as tags)"

text \<open>The outer loop over the releases, with the map \<^verbatim>\<open>tags\<close> as its state.\<close>

fun ListReleases_loop ::
  "('v, 'c) packages \<Rightarrow> VersionsImpl \<Rightarrow> RepositoryRelease list \<Rightarrow> string \<Rightarrow> catalog \<Rightarrow> error + catalog"
where
  "ListReleases_loop p v [] constraint tags = Inr tags"
| "ListReleases_loop p v (g # gr) constraint tags =
     (if constraint \<noteq> '''' then
        (case InRange p (TagName g) constraint of
           Inl err \<Rightarrow> Inl (Errorf ''Invalid sematic version constraint'' err)
         | Inr valid \<Rightarrow>
             if \<not> valid then ListReleases_loop p v gr constraint tags
             else ListReleases_loop p v gr constraint (ListReleases_assets p v g (Assets g) tags))
      else ListReleases_loop p v gr constraint (ListReleases_assets p v g (Assets g) tags))"

definition ListReleases :: "('v, 'c) packages \<Rightarrow> VersionsImpl \<Rightarrow> string \<Rightarrow> error + catalog" where
  "ListReleases p v constraint =
     (case client v (Organization (options v)) (Repo (options v)) of
        Inl err \<Rightarrow> Inl (Errorf ''Unable to list Github releases'' err)
      | Inr gr \<Rightarrow> ListReleases_loop p v gr constraint [])"

section \<open>ListInstalledVersions\<close>

fun ListInstalledVersions_loop ::
  "('v, 'c) packages \<Rightarrow> VersionsImpl \<Rightarrow> string list \<Rightarrow> string \<Rightarrow> catalog \<Rightarrow> catalog"
where
  "ListInstalledVersions_loop p v [] constraint versions = versions"
| "ListInstalledVersions_loop p v (f # files) constraint versions =
     (if constraint \<noteq> '''' \<and>
         (case InRange p f constraint of Inl err \<Rightarrow> True | Inr valid \<Rightarrow> \<not> valid)
      then ListInstalledVersions_loop p v files constraint versions
      else
        (let tag = TrimLeft f ''v'' in
         ListInstalledVersions_loop p v files constraint
           (AList.update f
              (path_Join p [ReleasesPath (options v), f,
                 ExeNameFunc (options v) tag (GOOS (options v)) (GOARCH (options v))])
              versions)))"

definition ListInstalledVersions ::
  "('v, 'c) packages \<Rightarrow> VersionsImpl \<Rightarrow> string \<Rightarrow> error + catalog"
where
  "ListInstalledVersions p v constraint =
     (case ioutil_ReadDir p (ReleasesPath (options v)) of
        Inl err \<Rightarrow> Inl (Errorf ''Unable to list releases'' err)
      | Inr files \<Rightarrow> Inr (ListInstalledVersions_loop p v files constraint []))"

section \<open>SortMapKeys\<close>

text \<open>
  \<^verbatim>\<open>v, _ := semver.NewVersion(k)\<close>: the error is dropped and \<^verbatim>\<open>v\<close> is the nil
  pointer when the key does not parse; \<open>None\<close> is that nil pointer.
\<close>

definition NewVersion_ptr :: "('v, 'c) packages \<Rightarrow> string \<Rightarrow> 'v option" where
  "NewVersion_ptr p k = (case semver_NewVersion p k of Inl err \<Rightarrow> None | Inr ver \<Rightarrow> Some ver)"

text \<open>
  \<^verbatim>\<open>semver.Collection.Less(i, j)\<close> is \<^verbatim>\<open>c[i].LessThan(c[j])\<close>, which reads the fields
  of both versions: it panics when either pointer is nil.
\<close>

fun Less :: "('v, 'c) packages \<Rightarrow> 'v option \<Rightarrow> 'v option \<Rightarrow> bool outcome" where
  "Less p (Some x) (Some y) = Return (LessThan p x y)"
| "Less p _ _ = Panic"

text \<open>
  \<^verbatim>\<open>sort.Sort\<close> of the Go standard library, by the insertion sort it runs on slices
  of up to six elements: element \<open>i\<close> moves down while it is \<^verbatim>\<open>Less\<close> than its
  predecessor. The sorted prefix is kept reversed, its last element first.
  \<^verbatim>\<open>sort.Sort\<close> is not stable; on longer slices it may order elements of equal
  precedence differently, and no general statement below depends on that order.
\<close>

fun insertionSort_sink ::
  "('a \<Rightarrow> 'a \<Rightarrow> bool outcome) \<Rightarrow> 'a \<Rightarrow> 'a list \<Rightarrow> 'a list outcome"
where
  "insertionSort_sink lt x [] = Return [x]"
| "insertionSort_sink lt x (y # ys) =
     (case lt x y of
        Panic \<Rightarrow> Panic
      | Return b \<Rightarrow>
          if b then
            (case insertionSort_sink lt x ys of
               Panic \<Rightarrow> Panic
             | Return r \<Rightarrow> Return (y # r))
          else Return (x # y # ys))"

fun insertionSort :: "('a \<Rightarrow> 'a \<Rightarrow> bool outcome) \<Rightarrow> 'a list \<Rightarrow> 'a list \<Rightarrow> 'a list outcome" where
  "insertionSort lt prefix [] = Return (rev prefix)"
| "insertionSort lt prefix (x # xs) =
     (case insertionSort_sink lt x prefix of
        Panic \<Rightarrow> Panic
      | Return d \<Rightarrow> insertionSort lt d xs)"

definition sort_Sort :: "('a \<Rightarrow> 'a \<Rightarrow> bool outcome) \<Rightarrow> 'a list \<Rightarrow> 'a list outcome" where
  "sort_Sort lt data = insertionSort lt [] data"

text \<open>
  The loops that append \<^verbatim>\<open>v.Original()\<close> for each element: a nil pointer panics.
\<close>

fun Originals :: "('v, 'c) packages \<Rightarrow> 'v option list \<Rightarrow> string list outcome" where
  "Originals p [] = Return []"
| "Originals p (None # vs) = Panic"
| "Originals p (Some x # vs) =
     (case Originals p vs of
        Panic \<Rightarrow> Panic
      | Return versions \<Rightarrow> Return (Original p x # versions))"

definition SortMapKeys :: "('v, 'c) packages \<Rightarrow> catalog \<Rightarrow> bool \<Rightarrow> string list outcome" where
  "SortMapKeys p m decending =
     (let vs = map (\<lambda>(k, _). NewVersion_ptr p k) m in
      case sort_Sort (Less p) vs of
        Panic \<Rightarrow> Panic
      | Return vs' \<Rightarrow>
          if \<not> decending then Originals p vs' else Originals p (rev vs'))"

section \<open>GetLatestReleaseURL and GetInstalledVersion\<close>

definition GetLatestReleaseURL ::
  "('v, 'c) packages \<Rightarrow> VersionsImpl \<Rightarrow> string \<Rightarrow> (string \<times> string \<times> error option) outcome"
where
  "GetLatestReleaseURL p v constraint =
     (case ListReleases p v constraint of
        Inl err \<Rightarrow> Return ('''', '''', Some err)
      | Inr assets \<Rightarrow>
          (case SortMapKeys p assets False of
             Panic \<Rightarrow> Panic
           | Return keys \<Rightarrow>
               if length keys = 0 then Return ('''', '''', None)
               else (let tag = keys ! (length keys - 1)
                     in Return (tag, index assets tag, None))))"

definition GetInstalledVersion ::
  "('v, 'c) packages \<Rightarrow> VersionsImpl \<Rightarrow> string \<Rightarrow> (string \<times> string \<times> error option) outcome"
where
  "GetInstalledVersion p v constraint =
     (case ListInstalledVersions p v constraint of
        Inl err \<Rightarrow> Return ('''', '''', Some err)
      | Inr assets \<Rightarrow>
          (case SortMapKeys p assets False of
             Panic \<Rightarrow> Panic
           | Return keys \<Rightarrow>
               if length keys = 0 then Return ('''', '''', None)
               else (let tag = keys ! (length keys - 1)
                     in Return (tag, index assets tag, None))))"

section \<open>DownloadRelease\<close>

text \<open>
  The calls made to the file system and to the fetcher are returned with the result, in
  the order they are made.
\<close>

datatype effect = Call_MkdirAll string | Call_GetAny string string

definition DownloadRelease ::
  "('v, 'c) packages \<Rightarrow> VersionsImpl \<Rightarrow> string \<Rightarrow> string \<Rightarrow> (error + string) \<times> effect list"
where
  "DownloadRelease p v tag url =
     (let dir = path_Join p [ReleasesPath (options v), tag] in
      case os_MkdirAll p dir of
        Some err \<Rightarrow> (Inl (Errorf ''Unable to create temporary folder'' err), [Call_MkdirAll dir])
      | None \<Rightarrow>
          (let tag' = TrimLeft tag ''v'';
               fp = path_Join p [dir, ExeNameFunc (options v) tag' (GOOS (options v)) (GOARCH (options v))]
           in case getter_GetAny p dir url of
                Some err \<Rightarrow>
                  (Inl (Errorf ''Unable to download file'' err), [Call_MkdirAll dir, Call_GetAny dir url])
              | None \<Rightarrow> (Inr fp, [Call_MkdirAll dir, Call_GetAny dir url])))"

section \<open>What the program relies on in the semver package\<close>

text \<open>
  \<open>precedes p a b\<close>: both strings parse and the version of \<open>a\<close> is \<^verbatim>\<open>LessThan\<close>
  the version of \<open>b\<close>.
\<close>

definition precedes :: "('v, 'c) packages \<Rightarrow> string \<Rightarrow> string \<Rightarrow> bool" where
  "precedes p a b =
     (case semver_NewVersion p a of
        Inl err \<Rightarrow> False
      | Inr x \<Rightarrow>
          (case semver_NewVersion p b of
             Inl err \<Rightarrow> False
           | Inr y \<Rightarrow> LessThan p x y))"

text \<open>
  The keys of a map adhere to semver ("keys must adhere to Semver", as the interface
  says of \<^verbatim>\<open>SortMapKeys\<close>): each key parses, and \<^verbatim>\<open>Original()\<close> of the parsed
  version is the string that was parsed, which is what the package stores.
\<close>

definition adhere_to_semver :: "('v, 'c) packages \<Rightarrow> string set \<Rightarrow> bool" where
  "adhere_to_semver p K =
     (\<forall>k\<in>K. \<exists>ver. semver_NewVersion p k = Inr ver \<and> Original p ver = k)"

text \<open>
  \<^verbatim>\<open>LessThan\<close> is a precedence on the versions of a set of keys: it is asymmetric,
  and "not after" is transitive (a strict weak order, the contract of \<^verbatim>\<open>sort.Sort\<close>
  for its \<^verbatim>\<open>Less\<close>).
\<close>

definition precedence_on :: "('v, 'c) packages \<Rightarrow> string set \<Rightarrow> bool" where
  "precedence_on p K =
     ((\<forall>a\<in>K. \<forall>b\<in>K. precedes p a b \<longrightarrow> \<not> precedes p b a) \<and>
      (\<forall>a\<in>K. \<forall>b\<in>K. \<forall>c\<in>K.
         \<not> precedes p b a \<longrightarrow> \<not> precedes p c b \<longrightarrow> \<not> precedes p c a))"

text \<open>
  \<open>matching p v g a\<close>: asset \<open>a\<close> of release \<open>g\<close> has, up to case, the name that the
  naming function computes for the release.
\<close>

definition matching :: "('v, 'c) packages \<Rightarrow> VersionsImpl \<Rightarrow> RepositoryRelease \<Rightarrow> ReleaseAsset \<Rightarrow> bool" where
  "matching p v g a =
     (strings_ToLower p (Name a) =
      strings_ToLower p
        (AssetNameFunc (options v) (TrimLeft (TagName g) ''v'') (GOOS (options v)) (GOARCH (options v))))"

section \<open>The scenarios of the test-suite\<close>

text \<open>
  The answers of the semver package on the tags and constraints that the tests and the
  README use: a version as its three numbers and its pre-release, ordered by the
  numbers and then with a pre-release before the release; a tilde constraint as the
  half-open range of numbers it admits. Any other string is rejected with the
  package's error.
\<close>

record Version =
  major :: nat
  minor :: nat
  patch :: nat
  pre :: string
  original :: string

definition example_tags :: "(string \<times> nat \<times> nat \<times> nat \<times> string) list" where
  "example_tags =
     [(''v0.12.2'', 0, 12, 2, []),
      (''v0.13.0-beta'', 0, 13, 0, ''beta''),
      (''v0.13.0'', 0, 13, 0, []),
      (''v0.14.1'', 0, 14, 1, []),
      (''v0.14.2'', 0, 14, 2, []),
      (''v1.0.0'', 1, 0, 0, []),
      (''1.0.0'', 1, 0, 0, [])]"

definition example_NewVersion :: "string \<Rightarrow> error + Version" where
  "example_NewVersion s =
     (case map_of example_tags s of
        None \<Rightarrow> Inl (errorString ''Invalid Semantic Version'')
      | Some (a, b, c, d) \<Rightarrow>
          Inr \<lparr>major = a, minor = b, patch = c, pre = d, original = s\<rparr>)"

definition precedence :: "Version \<Rightarrow> nat \<times> nat \<times> nat \<times> bool \<times> string" where
  "precedence x = (major x, minor x, patch x, pre x = [], pre x)"

definition example_LessThan :: "Version \<Rightarrow> Version \<Rightarrow> bool" where
  "example_LessThan x y = (precedence x < precedence y)"

type_synonym Constraints = "(nat \<times> nat \<times> nat) \<times> (nat \<times> nat \<times> nat)"

definition example_constraints :: "(string \<times> Constraints) list" where
  "example_constraints =
     [(''~v0.12.0'', (0, 12, 0), (0, 13, 0)),
      (''~v0.14.0'', (0, 14, 0), (0, 15, 0)),
      (''~1.0.0'', (1, 0, 0), (1, 1, 0))]"

definition example_NewConstraint :: "string \<Rightarrow> error + Constraints" where
  "example_NewConstraint s =
     (case map_of example_constraints s of
        None \<Rightarrow> Inl (errorString (''improper constraint: '' @ s))
      | Some c \<Rightarrow> Inr c)"

definition example_Check :: "Constraints \<Rightarrow> Version \<Rightarrow> bool" where
  "example_Check c x =
     (fst c \<le> (major x, minor x, patch x) \<and> (major x, minor x, patch x) < snd c)"

text \<open>
  \<^verbatim>\<open>strings.ToLower\<close> on ASCII text, and \<^verbatim>\<open>path.Join\<close> on elements that need no
  cleaning: the elements that are not empty, separated by a slash.
\<close>

definition example_ToLower :: "string \<Rightarrow> string" where
  "example_ToLower s =
     map (\<lambda>c. if CHR ''A'' \<le> c \<and> c \<le> CHR ''Z'' then char_of (of_char c + (32::nat)) else c) s"

definition example_Join :: "string list \<Rightarrow> string" where
  "example_Join elem =
     (case filter (\<lambda>e. e \<noteq> []) elem of
        [] \<Rightarrow> []
      | e # es \<Rightarrow> foldl (\<lambda>acc x. acc @ ''/'' @ x) e es)"

text \<open>
  The packages of a scenario: what the directory listing, the directory creation and
  the fetcher answer is given by the scenario.
\<close>

definition example_packages ::
  "(error + string list) \<Rightarrow> error option \<Rightarrow> error option \<Rightarrow> (Version, Constraints) packages"
where
  "example_packages entries mkdir fetch =
     \<lparr>semver_NewVersion = example_NewVersion,
      semver_NewConstraint = example_NewConstraint,
      Check = example_Check,
      LessThan = example_LessThan,
      Original = original,
      strings_ToLower = example_ToLower,
      path_Join = example_Join,
      ioutil_ReadDir = (\<lambda>dir. entries),
      os_MkdirAll = (\<lambda>dir. mkdir),
      getter_GetAny = (\<lambda>dir url. fetch)\<rparr>"

text \<open>The naming function \<^verbatim>\<open>nf\<close> and the options of the tests' \<^verbatim>\<open>setup\<close>.\<close>

definition nf :: "string \<Rightarrow> string \<Rightarrow> string \<Rightarrow> string" where
  "nf ver goos goarch =
     (if goos = ''darwin'' then ''fake-service-osx''
      else if goos = ''linux'' then ''fake-service-linux''
      else if goos = ''windows'' then ''fake-service.exe''
      else [])"

definition test_setup :: "string \<Rightarrow> (error + RepositoryRelease list) \<Rightarrow> VersionsImpl" where
  "test_setup dlPath releases =
     \<lparr>options =
        \<lparr>Organization = ''nicholasjackson'', Repo = ''fake-service'',
         GOOS = ''linux'', GOARCH = ''x64'',
         AssetNameFunc = nf, ExeNameFunc = nf, ReleasesPath = dlPath\<rparr>,
      client = (\<lambda>organization repo. releases)\<rparr>"

text \<open>
  A naming function that puts the version into the file name, as release tools do (the
  function of the tests ignores the version), and the setup with it.
\<close>

definition nf_version :: "string \<Rightarrow> string \<Rightarrow> string \<Rightarrow> string" where
  "nf_version ver goos goarch = ''fake-service_'' @ ver @ ''_'' @ goos @ ''_'' @ goarch"

definition test_setup_version :: "string \<Rightarrow> (error + RepositoryRelease list) \<Rightarrow> VersionsImpl" where
  "test_setup_version dlPath releases =
     \<lparr>options =
        \<lparr>Organization = ''nicholasjackson'', Repo = ''fake-service'',
         GOOS = ''linux'', GOARCH = ''x64'',
         AssetNameFunc = nf_version, ExeNameFunc = nf_version, ReleasesPath = dlPath\<rparr>,
      client = (\<lambda>organization repo. releases)\<rparr>"

text \<open>A release with one asset per name, each under its download address.\<close>

definition release :: "string \<Rightarrow> string list \<Rightarrow> RepositoryRelease" where
  "release tag names =
     \<lparr>TagName = tag,
      Assets = map (\<lambda>n. \<lparr>Name = n, BrowserDownloadURL = ''https://example.org/'' @ tag @ ''/'' @ n\<rparr>) names\<rparr>"

section \<open>The empty catalog\<close>

lemma SortMapKeys_Nil: "SortMapKeys p [] decending = Return []"
  by (simp add: SortMapKeys_def sort_Sort_def)

text \<open>
  Claim C8. When the resolved catalog is empty, \<^verbatim>\<open>GetLatestReleaseURL\<close> and
  \<^verbatim>\<open>GetInstalledVersion\<close> both return the triple of the empty tag, the empty location
  and the nil error: an empty catalog is not a failure.
\<close>

theorem empty_catalog_is_no_result:
  "(ListReleases p v constraint = Inr [] \<longrightarrow>
      GetLatestReleaseURL p v constraint = Return ([], [], None)) \<and>
   (ListInstalledVersions p v constraint = Inr [] \<longrightarrow>
      GetInstalledVersion p v constraint = Return ([], [], None))"
  by (simp add: GetLatestReleaseURL_def GetInstalledVersion_def SortMapKeys_Nil)

text \<open>
  The scenario of the tests: no release and no installed directory satisfies
  \<^verbatim>\<open>~1.0.0\<close>.
\<close>

theorem empty_catalog_is_no_result_witness:
  "ListReleases (example_packages (Inr [''v0.14.1'']) None None)
     (test_setup ''/tmp/gvm''
        (Inr [release ''v0.12.2'' [''fake-service-linux''],
              release ''v0.13.0'' [''fake-service-linux'']]))
     ''~1.0.0'' = Inr [] \<and>
   GetLatestReleaseURL (example_packages (Inr [''v0.14.1'']) None None)
     (test_setup ''/tmp/gvm''
        (Inr [release ''v0.12.2'' [''fake-service-linux''],
              release ''v0.13.0'' [''fake-service-linux'']]))
     ''~1.0.0'' = Return ([], [], None) \<and>
   ListInstalledVersions (example_packages (Inr [''v0.14.1'']) None None)
     (test_setup ''/tmp/gvm''
        (Inr [release ''v0.12.2'' [''fake-service-linux''],
              release ''v0.13.0'' [''fake-service-linux'']]))
     ''~1.0.0'' = Inr [] \<and>
   GetInstalledVersion (example_packages (Inr [''v0.14.1'']) None None)
     (test_setup ''/tmp/gvm''
        (Inr [release ''v0.12.2'' [''fake-service-linux''],
              release ''v0.13.0'' [''fake-service-linux'']]))
     ''~1.0.0'' = Return ([], [], None)"
proof -
  let ?p = "example_packages (Inr [''v0.14.1'']) None None"
  let ?v = "test_setup ''/tmp/gvm''
        (Inr [release ''v0.12.2'' [''fake-service-linux''],
              release ''v0.13.0'' [''fake-service-linux'']])"
  have remote: "ListReleases ?p ?v ''~1.0.0'' = Inr []"
    by code_simp
  have installed: "ListInstalledVersions ?p ?v ''~1.0.0'' = Inr []"
    by code_simp
  from empty_catalog_is_no_result [of ?p ?v "''~1.0.0''"] remote installed
  show ?thesis by blast
qed

section \<open>Sorting\<close>

text \<open>
  The insertion sort returns a permutation of its input whenever it returns; it returns
  and orders its input whenever the comparison returns on all the elements and is a
  precedence on them.
\<close>

lemma sink_mset:
  "insertionSort_sink lt x ys = Return r \<Longrightarrow> mset r = add_mset x (mset ys)"
proof (induction ys arbitrary: r)
  case Nil
  then show ?case by auto
next
  case (Cons y ys)
  then show ?case
    by (auto split: outcome.splits if_splits)
qed

lemma sink_set:
  assumes "insertionSort_sink lt x ys = Return r"
  shows "set r = insert x (set ys)"
proof -
  have "set_mset (mset r) = set_mset (add_mset x (mset ys))"
    using assms by (simp add: sink_mset)
  then show ?thesis by simp
qed

lemma insertionSort_mset:
  "insertionSort lt prefix xs = Return r \<Longrightarrow> mset r = mset prefix + mset xs"
proof (induction xs arbitrary: prefix)
  case Nil
  then show ?case by auto
next
  case (Cons x xs)
  from Cons.prems obtain d where d: "insertionSort_sink lt x prefix = Return d"
    and rest: "insertionSort lt d xs = Return r"
    by (auto split: outcome.splits)
  have "mset d = add_mset x (mset prefix)" using d by (rule sink_mset)
  moreover have "mset r = mset d + mset xs" using rest by (rule Cons.IH)
  ultimately show ?case by simp
qed

lemma sink_returns:
  assumes lt: "\<And>a b. a \<in> S \<Longrightarrow> b \<in> S \<Longrightarrow> lt a b = Return (R a b)"
    and "x \<in> S" and "set ys \<subseteq> S"
  shows "\<exists>r. insertionSort_sink lt x ys = Return r"
  using assms(2,3)
proof (induction ys)
  case Nil
  then show ?case by simp
next
  case (Cons y ys)
  then obtain r where "insertionSort_sink lt x ys = Return r" by auto
  moreover have "lt x y = Return (R x y)" using Cons.prems by (simp add: lt)
  ultimately show ?case by simp
qed

lemma insertionSort_returns:
  assumes lt: "\<And>a b. a \<in> S \<Longrightarrow> b \<in> S \<Longrightarrow> lt a b = Return (R a b)"
    and "set prefix \<subseteq> S" and "set xs \<subseteq> S"
  shows "\<exists>r. insertionSort lt prefix xs = Return r"
  using assms(2,3)
proof (induction xs arbitrary: prefix)
  case Nil
  then show ?case by simp
next
  case (Cons x xs)
  have "x \<in> S" using Cons.prems by simp
  then obtain d where d: "insertionSort_sink lt x prefix = Return d"
    using sink_returns [of S lt R x prefix] lt Cons.prems(1) by blast
  then have "set d = insert x (set prefix)" by (rule sink_set)
  then have "set d \<subseteq> S" using Cons.prems by simp
  moreover have "set xs \<subseteq> S" using Cons.prems by simp
  ultimately obtain r where "insertionSort lt d xs = Return r"
    using Cons.IH by blast
  then show ?case using d by simp
qed

lemma sink_sorted:
  assumes lt: "\<And>a b. a \<in> S \<Longrightarrow> b \<in> S \<Longrightarrow> lt a b = Return (R a b)"
    and asym: "\<And>a b. a \<in> S \<Longrightarrow> b \<in> S \<Longrightarrow> R a b \<Longrightarrow> \<not> R b a"
    and trans: "\<And>a b c. a \<in> S \<Longrightarrow> b \<in> S \<Longrightarrow> c \<in> S \<Longrightarrow> \<not> R b a \<Longrightarrow> \<not> R c b \<Longrightarrow> \<not> R c a"
    and "x \<in> S" and "set ys \<subseteq> S"
    and "sorted_wrt (\<lambda>a b. \<not> R a b) ys"
    and "insertionSort_sink lt x ys = Return r"
  shows "sorted_wrt (\<lambda>a b. \<not> R a b) r"
  using assms(4-)
proof (induction ys arbitrary: r)
  case Nil
  then show ?case by auto
next
  case (Cons y ys)
  have xS: "x \<in> S" and yS: "y \<in> S" and ysS: "set ys \<subseteq> S"
    using Cons.prems by simp_all
  have xy: "lt x y = Return (R x y)" using xS yS by (rule lt)
  have sorted_ys: "sorted_wrt (\<lambda>a b. \<not> R a b) ys" and y_ys: "\<forall>z\<in>set ys. \<not> R y z"
    using Cons.prems(3) by simp_all
  show ?case
  proof (cases "R x y")
    case True
    then obtain r' where r': "insertionSort_sink lt x ys = Return r'" and r: "r = y # r'"
      using Cons.prems(4) xy by (auto split: outcome.splits)
    have "sorted_wrt (\<lambda>a b. \<not> R a b) r'"
      using Cons.IH [OF xS ysS sorted_ys r'] .
    moreover have "set r' = insert x (set ys)" using r' by (rule sink_set)
    moreover have "\<not> R y x" using asym [OF xS yS True] .
    ultimately show ?thesis using r y_ys by simp
  next
    case False
    then have r: "r = x # y # ys" using Cons.prems(4) xy by simp
    have "\<forall>z\<in>set ys. \<not> R x z"
    proof
      fix z assume z: "z \<in> set ys"
      then have zS: "z \<in> S" using ysS by blast
      have "\<not> R y z" using y_ys z by simp
      then show "\<not> R x z" using trans [OF zS yS xS] False by simp
    qed
    then show ?thesis using r False Cons.prems(3) by simp
  qed
qed

lemma insertionSort_sorted:
  assumes lt: "\<And>a b. a \<in> S \<Longrightarrow> b \<in> S \<Longrightarrow> lt a b = Return (R a b)"
    and asym: "\<And>a b. a \<in> S \<Longrightarrow> b \<in> S \<Longrightarrow> R a b \<Longrightarrow> \<not> R b a"
    and trans: "\<And>a b c. a \<in> S \<Longrightarrow> b \<in> S \<Longrightarrow> c \<in> S \<Longrightarrow> \<not> R b a \<Longrightarrow> \<not> R c b \<Longrightarrow> \<not> R c a"
    and "set prefix \<subseteq> S" and "set xs \<subseteq> S"
    and "sorted_wrt (\<lambda>a b. \<not> R a b) prefix"
    and "insertionSort lt prefix xs = Return r"
  shows "sorted_wrt (\<lambda>a b. \<not> R b a) r"
  using assms(4-)
proof (induction xs arbitrary: prefix)
  case Nil
  then show ?case by (auto simp: sorted_wrt_rev)
next
  case (Cons x xs)
  from Cons.prems(4) obtain d where d: "insertionSort_sink lt x prefix = Return d"
    and rest: "insertionSort lt d xs = Return r"
    by (auto split: outcome.splits)
  have xS: "x \<in> S" and xsS: "set xs \<subseteq> S" using Cons.prems(2) by simp_all
  have "sorted_wrt (\<lambda>a b. \<not> R a b) d"
    using sink_sorted [of S lt R x prefix d] lt asym trans xS Cons.prems(1,3) d by blast
  moreover have "set d \<subseteq> S" using sink_set [OF d] xS Cons.prems(1) by simp
  ultimately show ?case using Cons.IH [of d] xsS rest by blast
qed

lemma Originals_Some:
  "None \<notin> set vs \<Longrightarrow> Originals p vs = Return (map (\<lambda>x. Original p (the x)) vs)"
  by (induction p vs rule: Originals.induct) auto

lemma Originals_None:
  "None \<in> set vs \<Longrightarrow> Originals p vs = Panic"
  by (induction p vs rule: Originals.induct) auto


lemma precedence_on_asym:
  "precedence_on p K \<Longrightarrow> x \<in> K \<Longrightarrow> y \<in> K \<Longrightarrow> precedes p x y \<Longrightarrow> \<not> precedes p y x"
  unfolding precedence_on_def by blast

lemma precedence_on_trans:
  "precedence_on p K \<Longrightarrow> x \<in> K \<Longrightarrow> y \<in> K \<Longrightarrow> z \<in> K \<Longrightarrow>
   \<not> precedes p y x \<Longrightarrow> \<not> precedes p z y \<Longrightarrow> \<not> precedes p z x"
  unfolding precedence_on_def by blast

lemma NewVersion_ptr_adhere:
  assumes "adhere_to_semver p K" and "k \<in> K"
  shows "\<exists>ver. semver_NewVersion p k = Inr ver \<and> NewVersion_ptr p k = Some ver \<and> Original p ver = k"
  using assms by (auto simp: adhere_to_semver_def NewVersion_ptr_def)

lemma SortMapKeys_adhere:
  assumes adhere: "adhere_to_semver p (fst ` set m)"
  shows "\<exists>ks. SortMapKeys p m False = Return ks \<and> SortMapKeys p m True = Return (rev ks) \<and>
           mset ks = mset (map fst m) \<and>
           (precedence_on p (fst ` set m) \<longrightarrow> sorted_wrt (\<lambda>a b. \<not> precedes p b a) ks)"
proof -
  let ?K = "fst ` set m"
  let ?vs = "map (\<lambda>(k, _). NewVersion_ptr p k) m"
  let ?S = "set ?vs"
  let ?R = "\<lambda>a b. Less p a b = Return True"
  let ?f = "\<lambda>x. Original p (the x)"
  have elem: "\<exists>k ver. k \<in> ?K \<and> a = Some ver \<and> semver_NewVersion p k = Inr ver \<and> Original p ver = k"
    if "a \<in> ?S" for a
  proof -
    from that obtain k u where ku: "(k, u) \<in> set m" and a: "a = NewVersion_ptr p k" by auto
    then have "k \<in> ?K" by force
    with NewVersion_ptr_adhere [OF adhere this] a show ?thesis by auto
  qed
  have lt: "Less p a b = Return (?R a b)" if "a \<in> ?S" "b \<in> ?S" for a b
    using elem [OF that(1)] elem [OF that(2)] by auto
  have rel: "?R a b = precedes p (?f a) (?f b) \<and> ?f a \<in> ?K \<and> ?f b \<in> ?K" if "a \<in> ?S" "b \<in> ?S" for a b
  proof -
    from elem [OF that(1)] obtain ka va where a: "ka \<in> ?K" "a = Some va"
      "semver_NewVersion p ka = Inr va" "Original p va = ka" by blast
    from elem [OF that(2)] obtain kb vb where b: "kb \<in> ?K" "b = Some vb"
      "semver_NewVersion p kb = Inr vb" "Original p vb = kb" by blast
    show ?thesis using a b by (simp add: precedes_def)
  qed
  obtain vs' where sorted: "sort_Sort (Less p) ?vs = Return vs'"
    using insertionSort_returns [of ?S "Less p" ?R "[]" ?vs] lt
    unfolding sort_Sort_def by auto
  then have ms: "mset vs' = mset ?vs"
    unfolding sort_Sort_def by (simp add: insertionSort_mset)
  then have set_vs': "set vs' = ?S" by (rule mset_eq_setD)
  have "None \<notin> ?S" using elem by blast
  then have noNone: "None \<notin> set vs'" "None \<notin> set (rev vs')" using set_vs' by simp_all
  let ?ks = "map ?f vs'"
  have asc: "SortMapKeys p m False = Return ?ks"
    using sorted Originals_Some [OF noNone(1)] by (simp add: SortMapKeys_def)
  have desc: "SortMapKeys p m True = Return (rev ?ks)"
    using sorted Originals_Some [OF noNone(2)] by (simp add: SortMapKeys_def rev_map)
  have keys: "map ?f ?vs = map fst m"
  proof -
    have "?f (NewVersion_ptr p k) = k" if "(k, u) \<in> set m" for k u
    proof -
      have "k \<in> ?K" using that by force
      with NewVersion_ptr_adhere [OF adhere this] show ?thesis by auto
    qed
    then show ?thesis by auto
  qed
  have "mset ?ks = mset (map ?f ?vs)" using ms by (metis mset_map)
  then have perm: "mset ?ks = mset (map fst m)" by (simp only: keys)
  have ordered: "sorted_wrt (\<lambda>a b. \<not> precedes p b a) ?ks" if order: "precedence_on p ?K"
  proof -
    note o1 = precedence_on_asym [OF order]
    note o2 = precedence_on_trans [OF order]
    have asym: "\<not> ?R b a" if "a \<in> ?S" "b \<in> ?S" "?R a b" for a b
    proof -
      from rel [OF that(1,2)] that(3)
      have "precedes p (?f a) (?f b)" "?f a \<in> ?K" "?f b \<in> ?K" by simp_all
      then have "\<not> precedes p (?f b) (?f a)" using o1 by simp
      then show ?thesis using rel [OF that(2,1)] by simp
    qed
    have trans: "\<not> ?R c a" if "a \<in> ?S" "b \<in> ?S" "c \<in> ?S" "\<not> ?R b a" "\<not> ?R c b" for a b c
    proof -
      from rel [OF that(2,1)] that(4)
      have 1: "\<not> precedes p (?f b) (?f a)" "?f a \<in> ?K" "?f b \<in> ?K" by simp_all
      from rel [OF that(3,2)] that(5)
      have 2: "\<not> precedes p (?f c) (?f b)" "?f c \<in> ?K" by simp_all
      have "\<not> precedes p (?f c) (?f a)" using o2 [OF 1(2) 1(3) 2(2) 1(1) 2(1)] .
      then show ?thesis using rel [OF that(3,1)] by simp
    qed
    have run: "insertionSort (Less p) [] ?vs = Return vs'"
      using sorted unfolding sort_Sort_def .
    have "sorted_wrt (\<lambda>a b. \<not> ?R b a) vs'"
    proof (rule insertionSort_sorted [where S = ?S and R = ?R and lt = "Less p", OF _ _ _ _ _ _ run])
      show "Less p a b = Return (?R a b)" if "a \<in> ?S" "b \<in> ?S" for a b
        using that by (rule lt)
      show "\<not> ?R b a" if "a \<in> ?S" "b \<in> ?S" "?R a b" for a b
        using that by (rule asym)
      show "\<not> ?R c a" if "a \<in> ?S" "b \<in> ?S" "c \<in> ?S" "\<not> ?R b a" "\<not> ?R c b" for a b c
        using that by (rule trans)
    qed simp_all
    then have "sorted_wrt (\<lambda>a b. \<not> precedes p (?f b) (?f a)) vs'"
    proof (rule sorted_wrt_mono_rel [rotated])
      fix a b assume ab: "a \<in> set vs'" "b \<in> set vs'" and nR: "\<not> ?R b a"
      from ab have "a \<in> ?S" "b \<in> ?S" using set_vs' by simp_all
      from rel [OF this(2,1)] nR show "\<not> precedes p (?f b) (?f a)" by simp
    qed
    then show ?thesis by (simp add: sorted_wrt_map)
  qed
  from asc desc perm ordered show ?thesis by blast
qed

text \<open>A key that does not parse makes the call panic, in either direction.\<close>

lemma SortMapKeys_unparseable:
  assumes "(k, u) \<in> set m" and "semver_NewVersion p k = Inl err"
  shows "SortMapKeys p m decending = Panic"
proof (cases "sort_Sort (Less p) (map (\<lambda>(k, _). NewVersion_ptr p k) m)")
  case Panic
  then show ?thesis by (simp add: SortMapKeys_def)
next
  case (Return vs')
  then have "mset vs' = mset (map (\<lambda>(k, _). NewVersion_ptr p k) m)"
    unfolding sort_Sort_def by (simp add: insertionSort_mset)
  then have "set vs' = set (map (\<lambda>(k, _). NewVersion_ptr p k) m)" by (rule mset_eq_setD)
  moreover have "NewVersion_ptr p k = None" using assms(2) by (simp add: NewVersion_ptr_def)
  ultimately have "None \<in> set vs'" using assms(1) by force
  then have "Originals p vs' = Panic" "Originals p (rev vs') = Panic"
    by (simp_all add: Originals_None)
  then show ?thesis using Return by (simp add: SortMapKeys_def)
qed

text \<open>The versions of the scenarios are ordered by \<open>precedence\<close>, a linear order.\<close>

lemma example_precedence_on:
  assumes "adhere_to_semver (example_packages entries mkdir fetch) K"
  shows "precedence_on (example_packages entries mkdir fetch) K"
proof -
  let ?p = "example_packages entries mkdir fetch"
  have "\<exists>x. example_NewVersion k = Inr x" if "k \<in> K" for k
    using assms that by (auto simp: adhere_to_semver_def example_packages_def)
  then obtain ver where ver: "\<And>k. k \<in> K \<Longrightarrow> example_NewVersion k = Inr (ver k)"
    by metis
  have pr: "precedes ?p a b = (precedence (ver a) < precedence (ver b))"
    if "a \<in> K" "b \<in> K" for a b
    using ver [OF that(1)] ver [OF that(2)]
    by (simp add: precedes_def example_packages_def example_LessThan_def)
  have "\<not> precedes ?p b a" if "a \<in> K" "b \<in> K" "precedes ?p a b" for a b
    using that pr by auto
  moreover have "\<not> precedes ?p c a"
    if "a \<in> K" "b \<in> K" "c \<in> K" "\<not> precedes ?p b a" "\<not> precedes ?p c b" for a b c
  proof -
    have "precedence (ver a) \<le> precedence (ver b)" using that pr by auto
    moreover have "precedence (ver b) \<le> precedence (ver c)" using that pr by auto
    ultimately show ?thesis using that pr by auto
  qed
  ultimately show ?thesis unfolding precedence_on_def by blast
qed

section \<open>SortMapKeys on keys that adhere to semver, and on others\<close>

text \<open>
  Claim C3, as the program has it. For every mapping whose keys all parse as semantic
  versions, \<^verbatim>\<open>SortMapKeys\<close> returns: the result holds every key exactly as often as
  the mapping does, in its original form, and it is ordered by precedence, ascending or
  (when \<^verbatim>\<open>decending\<close> is set) descending.
\<close>

theorem SortMapKeys_adhering_keys:
  assumes "adhere_to_semver p (fst ` set m)"
  shows "\<exists>ks. SortMapKeys p m decending = Return ks \<and> mset ks = mset (map fst m) \<and>
           (precedence_on p (fst ` set m) \<longrightarrow>
              (if decending then sorted_wrt (\<lambda>a b. \<not> precedes p a b) ks
               else sorted_wrt (\<lambda>a b. \<not> precedes p b a) ks))"
proof -
  from SortMapKeys_adhere [OF assms] obtain ks where
    asc: "SortMapKeys p m False = Return ks" and desc: "SortMapKeys p m True = Return (rev ks)"
    and perm: "mset ks = mset (map fst m)"
    and ord: "precedence_on p (fst ` set m) \<longrightarrow> sorted_wrt (\<lambda>a b. \<not> precedes p b a) ks"
    by blast
  show ?thesis
  proof (cases decending)
    case True
    then show ?thesis using desc perm ord by (auto simp: sorted_wrt_rev)
  next
    case False
    then show ?thesis using asc perm ord by auto
  qed
qed

theorem SortMapKeys_adhering_keys_witness:
  "adhere_to_semver (example_packages (Inr []) None None)
     (fst ` set [(''v0.14.2'', ''a''), (''v0.12.2'', ''b''), (''v0.13.0'', ''c''), (''v0.13.0-beta'', ''d'')]) \<and>
   precedence_on (example_packages (Inr []) None None)
     (fst ` set [(''v0.14.2'', ''a''), (''v0.12.2'', ''b''), (''v0.13.0'', ''c''), (''v0.13.0-beta'', ''d'')]) \<and>
   (\<exists>ks. SortMapKeys (example_packages (Inr []) None None)
           [(''v0.14.2'', ''a''), (''v0.12.2'', ''b''), (''v0.13.0'', ''c''), (''v0.13.0-beta'', ''d'')] False = Return ks \<and>
         mset ks = mset (map fst [(''v0.14.2'', ''a''), (''v0.12.2'', ''b''), (''v0.13.0'', ''c''), (''v0.13.0-beta'', ''d'')]) \<and>
         sorted_wrt (\<lambda>a b. \<not> precedes (example_packages (Inr []) None None) b a) ks)"
proof -
  let ?p = "example_packages (Inr []) None None"
  let ?m = "[(''v0.14.2'', ''a''), (''v0.12.2'', ''b''), (''v0.13.0'', ''c''), (''v0.13.0-beta'', ''d'')]"
  have adhere: "adhere_to_semver ?p (fst ` set ?m)"
    unfolding adhere_to_semver_def
    by (simp add: example_packages_def example_NewVersion_def example_tags_def)
  have order: "precedence_on ?p (fst ` set ?m)"
    using adhere by (rule example_precedence_on)
  from SortMapKeys_adhering_keys [OF adhere, of False] adhere order
  show ?thesis by auto
qed

text \<open>
  Claim C3, as stated, fails: a key that does not parse is not dropped. The nil pointer
  that \<^verbatim>\<open>NewVersion\<close> returned for \<^verbatim>\<open>latest\<close> is appended, and comparing it
  panics.
\<close>

theorem SortMapKeys_unparseable_key_counterexample:
  "SortMapKeys (example_packages (Inr []) None None)
     [(''v0.14.1'', ''https://example.org/v0.14.1/fake-service-linux''),
      (''latest'', ''https://example.org/latest/fake-service-linux'')] False = Panic"
  by code_simp


section \<open>The two directions of SortMapKeys\<close>

text \<open>
  Each call ranges over the map in an order of its own. That order does not show in
  the result when no two keys have the same precedence: an ordered list of such keys is
  unique. Keys of the same precedence, such as \<^verbatim>\<open>1.0.0\<close> and \<^verbatim>\<open>v1.0.0\<close>, keep the
  order in which the call visited them.
\<close>

lemma sorted_permutation_unique:
  assumes "mset xs = mset ys" and "distinct xs"
    and "sorted_wrt (\<lambda>a b. \<not> R b a) xs" and "sorted_wrt (\<lambda>a b. \<not> R b a) ys"
    and total: "\<And>a b. a \<in> set xs \<Longrightarrow> b \<in> set xs \<Longrightarrow> a \<noteq> b \<Longrightarrow> R a b \<or> R b a"
  shows "xs = ys"
  using assms
proof (induction xs arbitrary: ys)
  case Nil
  then show ?case by simp
next
  case (Cons x xs)
  from Cons.prems(1) obtain y ys' where ys: "ys = y # ys'"
    by (cases ys) auto
  have sets: "set (x # xs) = set ys" using Cons.prems(1) by (rule mset_eq_setD)
  have "x = y"
  proof (rule ccontr)
    assume neq: "x \<noteq> y"
    have "x \<in> set ys'" using sets ys neq by auto
    then have 1: "\<not> R x y" using Cons.prems(4) ys by auto
    have "y \<in> set xs" using sets ys neq by auto
    then have 2: "\<not> R y x" using Cons.prems(3) by auto
    have "y \<in> set (x # xs)" using sets ys by auto
    then show False using Cons.prems(5) [of x y] neq 1 2 by auto
  qed
  moreover have "xs = ys'"
  proof (rule Cons.IH)
    show "mset xs = mset ys'" using Cons.prems(1) ys \<open>x = y\<close> by simp
    show "distinct xs" using Cons.prems(2) by simp
    show "sorted_wrt (\<lambda>a b. \<not> R b a) xs" using Cons.prems(3) by simp
    show "sorted_wrt (\<lambda>a b. \<not> R b a) ys'" using Cons.prems(4) ys by simp
    show "R a b \<or> R b a" if "a \<in> set xs" "b \<in> set xs" "a \<noteq> b" for a b
      using Cons.prems(5) [of a b] that by simp
  qed
  ultimately show ?case using ys by simp
qed

lemma SortMapKeys_any_order:
  assumes adhere: "adhere_to_semver p (fst ` set m)"
    and order: "precedence_on p (fst ` set m)"
    and no_ties: "\<And>a b. a \<in> fst ` set m \<Longrightarrow> b \<in> fst ` set m \<Longrightarrow> a \<noteq> b \<Longrightarrow>
                    precedes p a b \<or> precedes p b a"
    and keys: "distinct (map fst m)"
    and same: "mset m' = mset m"
  shows "SortMapKeys p m' decending = SortMapKeys p m decending"
proof -
  have set_eq: "set m' = set m" using same by (rule mset_eq_setD)
  have keys_eq: "mset (map fst m') = mset (map fst m)" using same by (metis mset_map)
  from SortMapKeys_adhere [OF adhere] order obtain ks where
    ks: "SortMapKeys p m False = Return ks" "SortMapKeys p m True = Return (rev ks)"
      "mset ks = mset (map fst m)" "sorted_wrt (\<lambda>a b. \<not> precedes p b a) ks"
    by blast
  from SortMapKeys_adhere [of p m'] adhere order set_eq obtain ks' where
    ks': "SortMapKeys p m' False = Return ks'" "SortMapKeys p m' True = Return (rev ks')"
      "mset ks' = mset (map fst m')" "sorted_wrt (\<lambda>a b. \<not> precedes p b a) ks'"
    by auto
  have "distinct ks" using ks(3) keys by (metis mset_eq_imp_distinct_iff)
  moreover have "set ks = fst ` set m"
    using ks(3) [THEN mset_eq_setD] by simp
  ultimately have "ks = ks'"
    using sorted_permutation_unique [of ks ks' "precedes p"] ks ks' keys_eq no_ties by auto
  then show ?thesis using ks ks' by (cases decending) simp_all
qed

text \<open>
  Claim C7, as the program has it. For every mapping whose keys all parse as semantic
  versions, \<^verbatim>\<open>SortMapKeys(m, false)\<close> holds every key and is ascending by precedence:
  no key is preceded by a key that comes after it. When moreover no two keys have the
  same precedence, \<^verbatim>\<open>SortMapKeys(m, true)\<close> is the exact reverse of
  \<^verbatim>\<open>SortMapKeys(m, false)\<close>, in whatever orders the two calls visit the map (\<open>m\<close> and
  \<open>m'\<close> are two such orders of one map).
\<close>

theorem SortMapKeys_descending_is_reverse_without_ties:
  assumes adhere: "adhere_to_semver p (fst ` set m)" and same: "mset m' = mset m"
  shows "\<exists>ks. SortMapKeys p m False = Return ks \<and> mset ks = mset (map fst m) \<and>
           (precedence_on p (fst ` set m) \<longrightarrow>
              sorted_wrt (\<lambda>a b. \<not> precedes p b a) ks \<and>
              (distinct (map fst m) \<and>
               (\<forall>a\<in>fst ` set m. \<forall>b\<in>fst ` set m. a \<noteq> b \<longrightarrow> precedes p a b \<or> precedes p b a) \<longrightarrow>
                 SortMapKeys p m' True = Return (rev ks)))"
proof -
  from SortMapKeys_adhere [OF adhere] obtain ks where
    asc: "SortMapKeys p m False = Return ks" and desc: "SortMapKeys p m True = Return (rev ks)"
    and perm: "mset ks = mset (map fst m)"
    and ord: "precedence_on p (fst ` set m) \<longrightarrow> sorted_wrt (\<lambda>a b. \<not> precedes p b a) ks"
    by blast
  have "SortMapKeys p m' True = Return (rev ks)"
    if order: "precedence_on p (fst ` set m)" and keys: "distinct (map fst m)"
      and no_ties: "\<forall>a\<in>fst ` set m. \<forall>b\<in>fst ` set m. a \<noteq> b \<longrightarrow> precedes p a b \<or> precedes p b a"
  proof -
    have "SortMapKeys p m' True = SortMapKeys p m True"
    proof (rule SortMapKeys_any_order [OF adhere order _ keys same])
      fix a b assume "a \<in> fst ` set m" "b \<in> fst ` set m" "a \<noteq> b"
      then show "precedes p a b \<or> precedes p b a" using no_ties by blast
    qed
    then show ?thesis using desc by simp
  qed
  with asc perm ord show ?thesis by blast
qed

theorem SortMapKeys_descending_is_reverse_without_ties_witness:
  "adhere_to_semver (example_packages (Inr []) None None)
     (fst ` set [(''v1.0.0'', ''a''), (''v0.13.0'', ''b''), (''v0.13.0-beta'', ''c''), (''v0.12.2'', ''d''), (''v0.14.1'', ''e'')]) \<and>
   mset [(''v0.12.2'', ''d''), (''v0.14.1'', ''e''), (''v1.0.0'', ''a''), (''v0.13.0-beta'', ''c''), (''v0.13.0'', ''b'')] =
   mset [(''v1.0.0'', ''a''), (''v0.13.0'', ''b''), (''v0.13.0-beta'', ''c''), (''v0.12.2'', ''d''), (''v0.14.1'', ''e'')] \<and>
   precedence_on (example_packages (Inr []) None None)
     (fst ` set [(''v1.0.0'', ''a''), (''v0.13.0'', ''b''), (''v0.13.0-beta'', ''c''), (''v0.12.2'', ''d''), (''v0.14.1'', ''e'')]) \<and>
   distinct (map fst [(''v1.0.0'', ''a''), (''v0.13.0'', ''b''), (''v0.13.0-beta'', ''c''), (''v0.12.2'', ''d''), (''v0.14.1'', ''e'')]) \<and>
   (\<exists>ks. SortMapKeys (example_packages (Inr []) None None)
           [(''v1.0.0'', ''a''), (''v0.13.0'', ''b''), (''v0.13.0-beta'', ''c''), (''v0.12.2'', ''d''), (''v0.14.1'', ''e'')] False = Return ks \<and>
         mset ks = mset (map fst [(''v1.0.0'', ''a''), (''v0.13.0'', ''b''), (''v0.13.0-beta'', ''c''), (''v0.12.2'', ''d''), (''v0.14.1'', ''e'')]) \<and>
         sorted_wrt (\<lambda>a b. \<not> precedes (example_packages (Inr []) None None) b a) ks \<and>
         SortMapKeys (example_packages (Inr []) None None)
           [(''v0.12.2'', ''d''), (''v0.14.1'', ''e''), (''v1.0.0'', ''a''), (''v0.13.0-beta'', ''c''), (''v0.13.0'', ''b'')] True = Return (rev ks))"
proof -
  let ?p = "example_packages (Inr []) None None"
  let ?m = "[(''v1.0.0'', ''a''), (''v0.13.0'', ''b''), (''v0.13.0-beta'', ''c''), (''v0.12.2'', ''d''), (''v0.14.1'', ''e'')]"
  let ?m' = "[(''v0.12.2'', ''d''), (''v0.14.1'', ''e''), (''v1.0.0'', ''a''), (''v0.13.0-beta'', ''c''), (''v0.13.0'', ''b'')]"
  have adhere: "adhere_to_semver ?p (fst ` set ?m)"
    unfolding adhere_to_semver_def
    by (simp add: example_packages_def example_NewVersion_def example_tags_def)
  have same: "mset ?m' = mset ?m" by simp
  have order: "precedence_on ?p (fst ` set ?m)"
    using adhere by (rule example_precedence_on)
  have keys: "distinct (map fst ?m)" by simp
  have no_ties: "\<forall>a\<in>fst ` set ?m. \<forall>b\<in>fst ` set ?m. a \<noteq> b \<longrightarrow> precedes ?p a b \<or> precedes ?p b a"
    by code_simp
  from SortMapKeys_descending_is_reverse_without_ties [OF adhere same] order keys no_ties
  have "\<exists>ks. SortMapKeys ?p ?m False = Return ks \<and> mset ks = mset (map fst ?m) \<and>
         sorted_wrt (\<lambda>a b. \<not> precedes ?p b a) ks \<and> SortMapKeys ?p ?m' True = Return (rev ks)"
    by blast
  with adhere same order keys show ?thesis by blast
qed

text \<open>
  Claim C7, as stated, fails. The map with the keys \<^verbatim>\<open>v1.0.0\<close> and \<^verbatim>\<open>1.0.0\<close>, both
  valid and of the same precedence, is visited in one order by the ascending call and
  in the other order by the descending call: both calls return \<^verbatim>\<open>v1.0.0\<close>,
  \<^verbatim>\<open>1.0.0\<close>, and the second result is not the reverse of the first.
\<close>

theorem SortMapKeys_reverse_across_orders_counterexample:
  "adhere_to_semver (example_packages (Inr []) None None)
     (fst ` set [(''v1.0.0'', ''a''), (''1.0.0'', ''b'')]) \<and>
   mset [(''1.0.0'', ''b''), (''v1.0.0'', ''a'')] = mset [(''v1.0.0'', ''a''), (''1.0.0'', ''b'')] \<and>
   SortMapKeys (example_packages (Inr []) None None)
     [(''v1.0.0'', ''a''), (''1.0.0'', ''b'')] False = Return [''v1.0.0'', ''1.0.0''] \<and>
   SortMapKeys (example_packages (Inr []) None None)
     [(''1.0.0'', ''b''), (''v1.0.0'', ''a'')] True = Return [''v1.0.0'', ''1.0.0''] \<and>
   [''v1.0.0'', ''1.0.0''] \<noteq> rev [''v1.0.0'', ''1.0.0'']"
proof -
  have "adhere_to_semver (example_packages (Inr []) None None)
     (fst ` set [(''v1.0.0'', ''a''), (''1.0.0'', ''b'')])"
    unfolding adhere_to_semver_def
    by (simp add: example_packages_def example_NewVersion_def example_tags_def)
  moreover have "mset [(''1.0.0'', ''b''), (''v1.0.0'', ''a'')] = mset [(''v1.0.0'', ''a''), (''1.0.0'', ''b'')]"
    by simp
  moreover have "SortMapKeys (example_packages (Inr []) None None)
     [(''v1.0.0'', ''a''), (''1.0.0'', ''b'')] False = Return [''v1.0.0'', ''1.0.0'']"
    by code_simp
  moreover have "SortMapKeys (example_packages (Inr []) None None)
     [(''1.0.0'', ''b''), (''v1.0.0'', ''a'')] True = Return [''v1.0.0'', ''1.0.0'']"
    by code_simp
  moreover have "[''v1.0.0'', ''1.0.0''] \<noteq> rev [''v1.0.0'', ''1.0.0'']"
    by simp
  ultimately show ?thesis by blast
qed

section \<open>The latest version of a catalog\<close>

text \<open>
  Claim C4. For every non-empty catalog whose keys are all valid semantic versions,
  the tag returned by \<^verbatim>\<open>GetLatestReleaseURL\<close>, and by \<^verbatim>\<open>GetInstalledVersion\<close>, is one
  of the keys of the catalog, as the catalog has it, and the location returned is the
  value stored in the catalog under that key.
\<close>

theorem latest_is_original_key:
  assumes nonempty: "assets \<noteq> []" and adhere: "adhere_to_semver p (fst ` set assets)"
  shows "(ListReleases p v constraint = Inr assets \<longrightarrow>
            (\<exists>tag url. GetLatestReleaseURL p v constraint = Return (tag, url, None) \<and>
                tag \<in> fst ` set assets \<and> map_of assets tag = Some url)) \<and>
         (ListInstalledVersions p v constraint = Inr assets \<longrightarrow>
            (\<exists>tag url. GetInstalledVersion p v constraint = Return (tag, url, None) \<and>
                tag \<in> fst ` set assets \<and> map_of assets tag = Some url))"
proof -
  from SortMapKeys_adhere [OF adhere] obtain ks where
    asc: "SortMapKeys p assets False = Return ks" and perm: "mset ks = mset (map fst assets)"
    by blast
  from perm have "set ks = set (map fst assets)" by (rule mset_eq_setD)
  then have "set ks = fst ` set assets" by simp
  moreover have "ks \<noteq> []" using perm nonempty by auto
  ultimately have last: "last ks \<in> fst ` set assets" using last_in_set by blast
  then obtain url where url: "map_of assets (last ks) = Some url"
    by (metis weak_map_of_SomeI imageE prod.collapse)
  have nth: "ks ! (length ks - 1) = last ks" using \<open>ks \<noteq> []\<close> by (simp add: last_conv_nth)
  have "index assets (last ks) = url" using url by (simp add: index_def)
  then show ?thesis
    using asc \<open>ks \<noteq> []\<close> nth last url
    by (simp add: GetLatestReleaseURL_def GetInstalledVersion_def)
qed

text \<open>
  The example of the specification: among \<^verbatim>\<open>v0.12.2\<close> and \<^verbatim>\<open>v0.13.0-beta\<close> the
  constraint \<^verbatim>\<open>~v0.12.0\<close> yields exactly \<^verbatim>\<open>v0.12.2\<close>; among the installed
  \<^verbatim>\<open>v0.14.1\<close> and \<^verbatim>\<open>v0.14.2\<close> the constraint \<^verbatim>\<open>~v0.14.0\<close> yields \<^verbatim>\<open>v0.14.2\<close>.
\<close>

theorem latest_is_original_key_witness:
  "GetLatestReleaseURL (example_packages (Inr [''v0.14.1'', ''v0.14.2'']) None None)
     (test_setup ''/tmp/gvm''
        (Inr [release ''v0.12.2'' [''fake-service-linux''],
              release ''v0.13.0-beta'' [''fake-service-linux'']]))
     ''~v0.12.0'' =
     Return (''v0.12.2'', ''https://example.org/v0.12.2/fake-service-linux'', None) \<and>
   (\<exists>tag url.
      GetInstalledVersion (example_packages (Inr [''v0.14.1'', ''v0.14.2'']) None None)
        (test_setup ''/tmp/gvm''
           (Inr [release ''v0.12.2'' [''fake-service-linux''],
                 release ''v0.13.0-beta'' [''fake-service-linux'']]))
        ''~v0.14.0'' = Return (tag, url, None) \<and>
      map_of [(''v0.14.1'', ''/tmp/gvm/v0.14.1/fake-service-linux''),
              (''v0.14.2'', ''/tmp/gvm/v0.14.2/fake-service-linux'')] tag = Some url)"
proof -
  let ?p = "example_packages (Inr [''v0.14.1'', ''v0.14.2'']) None None"
  let ?v = "test_setup ''/tmp/gvm''
        (Inr [release ''v0.12.2'' [''fake-service-linux''],
              release ''v0.13.0-beta'' [''fake-service-linux'']])"
  let ?remote = "[(''v0.12.2'', ''https://example.org/v0.12.2/fake-service-linux'')]"
  let ?installed = "[(''v0.14.1'', ''/tmp/gvm/v0.14.1/fake-service-linux''),
              (''v0.14.2'', ''/tmp/gvm/v0.14.2/fake-service-linux'')]"
  have remote: "ListReleases ?p ?v ''~v0.12.0'' = Inr ?remote"
    by code_simp
  have installed: "ListInstalledVersions ?p ?v ''~v0.14.0'' = Inr ?installed"
    by code_simp
  have adhere_remote: "adhere_to_semver ?p (fst ` set ?remote)"
    unfolding adhere_to_semver_def
    by (simp add: example_packages_def example_NewVersion_def example_tags_def)
  have adhere_installed: "adhere_to_semver ?p (fst ` set ?installed)"
    unfolding adhere_to_semver_def
    by (simp add: example_packages_def example_NewVersion_def example_tags_def)
  have "\<exists>tag url. GetLatestReleaseURL ?p ?v ''~v0.12.0'' = Return (tag, url, None) \<and>
          tag \<in> fst ` set ?remote \<and> map_of ?remote tag = Some url"
    using latest_is_original_key [OF _ adhere_remote, of ?v "''~v0.12.0''"] remote by simp
  then have 1: "GetLatestReleaseURL ?p ?v ''~v0.12.0'' =
     Return (''v0.12.2'', ''https://example.org/v0.12.2/fake-service-linux'', None)"
    by auto
  have 2: "\<exists>tag url. GetInstalledVersion ?p ?v ''~v0.14.0'' = Return (tag, url, None) \<and>
          map_of ?installed tag = Some url"
    using latest_is_original_key [OF _ adhere_installed, of ?v "''~v0.14.0''"] installed by blast
  from 1 2 show ?thesis by blast
qed

section \<open>The loops of ListReleases and ListInstalledVersions\<close>

text \<open>
  The scan of a release's assets stores the first matching asset or nothing; the loop
  over the releases reads its receiver's options only and runs through a list piece by
  piece.
\<close>

lemma assets_no_match:
  "\<forall>a\<in>set as. \<not> matching p v g a \<Longrightarrow> ListReleases_assets p v g as tags = tags"
  by (induction as) (simp_all add: matching_def Let_def)

lemma assets_first_match:
  assumes "\<forall>b\<in>set before. \<not> matching p v g b" and "matching p v g a"
  shows "ListReleases_assets p v g (before @ a # after) tags =
           AList.update (TagName g) (BrowserDownloadURL a) tags"
  using assms by (induction before) (simp_all add: matching_def Let_def)

lemma ListReleases_loop_append:
  "ListReleases_loop p v (gr @ gr') constraint tags =
     (case ListReleases_loop p v gr constraint tags of
        Inl err \<Rightarrow> Inl err
      | Inr t \<Rightarrow> ListReleases_loop p v gr' constraint t)"
proof (induction gr arbitrary: tags)
  case Nil
  show ?case by simp
next
  case (Cons g gr)
  show ?case
  proof (cases "constraint = []")
    case True
    then show ?thesis using Cons.IH by simp
  next
    case False
    show ?thesis
    proof (cases "InRange p (TagName g) constraint")
      case (Inl err)
      then show ?thesis using False by simp
    next
      case (Inr valid)
      then show ?thesis using False Cons.IH by simp
    qed
  qed
qed

lemma ListReleases_loop_last:
  assumes "ListReleases_loop p v gr constraint [] = Inr tags"
    and "constraint = [] \<or> InRange p (TagName g) constraint = Inr True"
  shows "ListReleases_loop p v (gr @ [g]) constraint [] =
           Inr (ListReleases_assets p v g (Assets g) tags)"
  using assms by (auto simp: ListReleases_loop_append)

lemma ListReleases_assets_options:
  "options v' = options v \<Longrightarrow> ListReleases_assets p v' g as tags = ListReleases_assets p v g as tags"
  by (induction as) simp_all

lemma ListReleases_loop_options:
  assumes "options v' = options v"
  shows "ListReleases_loop p v' gr constraint tags = ListReleases_loop p v gr constraint tags"
proof (induction gr arbitrary: tags)
  case Nil
  show ?case by simp
next
  case (Cons g gr)
  show ?case
  proof (cases "constraint = []")
    case True
    then show ?thesis using Cons.IH by (simp add: ListReleases_assets_options [OF assms])
  next
    case False
    show ?thesis
    proof (cases "InRange p (TagName g) constraint")
      case (Inl err)
      then show ?thesis using False by simp
    next
      case (Inr valid)
      then show ?thesis using False Cons.IH by (simp add: ListReleases_assets_options [OF assms])
    qed
  qed
qed


text \<open>
  What a catalog holds comes from a release or a directory entry, under its tag as it
  is; with the empty constraint every release with a matching asset and every directory
  entry is in it.
\<close>

lemma ListReleases_assets_map_of:
  assumes "map_of (ListReleases_assets p v g as tags) k = Some url"
  shows "map_of tags k = Some url \<or>
         (k = TagName g \<and> (\<exists>a\<in>set as. matching p v g a \<and> url = BrowserDownloadURL a))"
  using assms
proof (induction as)
  case Nil
  then show ?case by simp
next
  case (Cons a as)
  show ?case
  proof (cases "matching p v g a")
    case True
    then have "ListReleases_assets p v g (a # as) tags =
                 AList.update (TagName g) (BrowserDownloadURL a) tags"
      by (simp add: matching_def)
    then have "((map_of tags)(TagName g \<mapsto> BrowserDownloadURL a)) k = Some url"
      using Cons.prems by (simp add: update_conv')
    then show ?thesis using True by (auto split: if_splits)
  next
    case False
    then have "ListReleases_assets p v g (a # as) tags = ListReleases_assets p v g as tags"
      by (simp add: matching_def)
    then show ?thesis using Cons by auto
  qed
qed

lemma ListReleases_loop_map_of:
  assumes "ListReleases_loop p v gr constraint tags = Inr t" and "map_of t k = Some url"
  shows "map_of tags k = Some url \<or>
         (\<exists>g\<in>set gr. k = TagName g \<and>
            (\<exists>a\<in>set (Assets g). matching p v g a \<and> url = BrowserDownloadURL a))"
  using assms
proof (induction gr arbitrary: tags)
  case Nil
  then show ?case by simp
next
  case (Cons g gr)
  let ?scan = "ListReleases_assets p v g (Assets g) tags"
  have skip: ?case if "ListReleases_loop p v gr constraint tags = Inr t"
    using Cons.IH [OF that Cons.prems(2)] by auto
  have take: ?case if "ListReleases_loop p v gr constraint ?scan = Inr t"
  proof -
    from Cons.IH [OF that Cons.prems(2)]
    consider "map_of ?scan k = Some url"
      | "\<exists>g\<in>set gr. k = TagName g \<and>
            (\<exists>a\<in>set (Assets g). matching p v g a \<and> url = BrowserDownloadURL a)"
      by blast
    then show ?thesis
    proof cases
      case 1
      from ListReleases_assets_map_of [OF this] show ?thesis by auto
    next
      case 2
      then show ?thesis by auto
    qed
  qed
  show ?case
  proof (cases "constraint = []")
    case True
    then show ?thesis using Cons.prems(1) take by simp
  next
    case False
    show ?thesis
    proof (cases "InRange p (TagName g) constraint")
      case (Inl err)
      then show ?thesis using False Cons.prems(1) by simp
    next
      case (Inr valid)
      then show ?thesis using False Cons.prems(1) skip take by (cases valid) simp_all
    qed
  qed
qed

lemma ListReleases_assets_keys:
  "fst ` set (ListReleases_assets p v g as tags) =
     fst ` set tags \<union> (if \<exists>a\<in>set as. matching p v g a then {TagName g} else {})"
proof (induction as)
  case Nil
  show ?case by simp
next
  case (Cons a as)
  show ?case
  proof (cases "matching p v g a")
    case True
    then have "ListReleases_assets p v g (a # as) tags =
                 AList.update (TagName g) (BrowserDownloadURL a) tags"
      by (simp add: matching_def)
    then show ?thesis using True by (simp add: dom_update)
  next
    case False
    then have "ListReleases_assets p v g (a # as) tags = ListReleases_assets p v g as tags"
      by (simp add: matching_def)
    then show ?thesis using False Cons.IH by simp
  qed
qed

lemma ListReleases_loop_unconstrained:
  "\<exists>t. ListReleases_loop p v gr [] tags = Inr t \<and>
       fst ` set t = fst ` set tags \<union>
         {TagName g |g. g \<in> set gr \<and> (\<exists>a\<in>set (Assets g). matching p v g a)}"
proof (induction gr arbitrary: tags)
  case Nil
  show ?case by simp
next
  case (Cons g gr)
  from Cons.IH [of "ListReleases_assets p v g (Assets g) tags"]
  obtain t where t: "ListReleases_loop p v gr [] (ListReleases_assets p v g (Assets g) tags) = Inr t"
    and keys: "fst ` set t = fst ` set (ListReleases_assets p v g (Assets g) tags) \<union>
         {TagName g |g. g \<in> set gr \<and> (\<exists>a\<in>set (Assets g). matching p v g a)}"
    by blast
  have "ListReleases_loop p v (g # gr) [] tags = Inr t" using t by simp
  moreover have "fst ` set t = fst ` set tags \<union>
         {TagName h |h. h \<in> set (g # gr) \<and> (\<exists>a\<in>set (Assets h). matching p v h a)}"
    unfolding keys ListReleases_assets_keys by auto
  ultimately show ?case by blast
qed

lemma ListInstalledVersions_loop_map_of:
  assumes "map_of (ListInstalledVersions_loop p v files constraint versions) k = Some location"
  shows "map_of versions k = Some location \<or>
         (k \<in> set files \<and>
          location = path_Join p [ReleasesPath (options v), k,
             ExeNameFunc (options v) (TrimLeft k ''v'') (GOOS (options v)) (GOARCH (options v))])"
  using assms
proof (induction files arbitrary: versions)
  case Nil
  then show ?case by simp
next
  case (Cons f files)
  let ?skipped = "constraint \<noteq> [] \<and>
         (case InRange p f constraint of Inl err \<Rightarrow> True | Inr valid \<Rightarrow> \<not> valid)"
  let ?put = "AList.update f
              (path_Join p [ReleasesPath (options v), f,
                 ExeNameFunc (options v) (TrimLeft f ''v'') (GOOS (options v)) (GOARCH (options v))])
              versions"
  show ?case
  proof (cases ?skipped)
    case True
    then have "ListInstalledVersions_loop p v (f # files) constraint versions =
                 ListInstalledVersions_loop p v files constraint versions"
      by simp
    then show ?thesis using Cons.IH [of versions] Cons.prems by auto
  next
    case False
    then have "ListInstalledVersions_loop p v (f # files) constraint versions =
                 ListInstalledVersions_loop p v files constraint ?put"
      by (simp only: ListInstalledVersions_loop.simps if_False Let_def)
    then have "map_of ?put k = Some location \<or>
         (k \<in> set files \<and>
          location = path_Join p [ReleasesPath (options v), k,
             ExeNameFunc (options v) (TrimLeft k ''v'') (GOOS (options v)) (GOARCH (options v))])"
      using Cons.IH [of ?put] Cons.prems by simp
    then show ?thesis by (auto simp: update_conv' split: if_splits)
  qed
qed

lemma ListInstalledVersions_loop_unconstrained:
  "fst ` set (ListInstalledVersions_loop p v files [] versions) = fst ` set versions \<union> set files"
  by (induction files arbitrary: versions) (auto simp: dom_update Let_def)

lemma ListReleases_assets_packages:
  "strings_ToLower p' = strings_ToLower p \<Longrightarrow>
   ListReleases_assets p' v g as tags = ListReleases_assets p v g as tags"
  by (induction as) simp_all

lemma ListReleases_loop_packages:
  assumes "strings_ToLower p' = strings_ToLower p"
  shows "ListReleases_loop p' v gr [] tags = ListReleases_loop p v gr [] tags"
  by (induction gr arbitrary: tags) (simp_all add: ListReleases_assets_packages [OF assms])

lemma ListInstalledVersions_loop_packages:
  "path_Join p' = path_Join p \<Longrightarrow>
   ListInstalledVersions_loop p' v files [] versions = ListInstalledVersions_loop p v files [] versions"
  by (induction files arbitrary: versions) simp_all

section \<open>The scan of a release's assets\<close>

text \<open>
  Claim C5. For a release that passes the constraint filter (here the last release of
  the list, so that no later release touches its entry), the assets are scanned in the
  order given: the download address of the first asset whose name equals, up to case,
  the name computed by the naming function is stored under the release's tag, whatever
  assets follow it; a release without such an asset leaves the catalog as it was.
\<close>

theorem first_matching_asset_is_recorded:
  assumes listed: "client v (Organization (options v)) (Repo (options v)) = Inr (gr @ [g])"
    and before: "ListReleases p (v\<lparr>client := \<lambda>organization repo. Inr gr\<rparr>) constraint = Inr tags"
    and passes: "constraint = [] \<or> InRange p (TagName g) constraint = Inr True"
  shows "(\<forall>before a after.
            Assets g = before @ a # after \<and> (\<forall>b\<in>set before. \<not> matching p v g b) \<and> matching p v g a \<longrightarrow>
            ListReleases p v constraint = Inr (AList.update (TagName g) (BrowserDownloadURL a) tags)) \<and>
         ((\<forall>a\<in>set (Assets g). \<not> matching p v g a) \<longrightarrow> ListReleases p v constraint = Inr tags)"
proof -
  have "ListReleases_loop p v gr constraint [] = Inr tags"
    using before ListReleases_loop_options [of "v\<lparr>client := \<lambda>organization repo. Inr gr\<rparr>" v p gr constraint "[]"]
    by (simp add: ListReleases_def)
  then have all: "ListReleases p v constraint = Inr (ListReleases_assets p v g (Assets g) tags)"
    using listed passes
    by (auto simp: ListReleases_def ListReleases_loop_append)
  show ?thesis
    using all by (auto simp: assets_first_match assets_no_match)
qed

text \<open>
  Of the assets \<^verbatim>\<open>fake-service-osx\<close>, \<^verbatim>\<open>Fake-Service-Linux\<close>, \<^verbatim>\<open>fake-service-linux\<close>
  the second is stored although the third matches too; a release with the assets
  \<^verbatim>\<open>fake-service-osx\<close>, \<^verbatim>\<open>fake-service.exe\<close> adds nothing on linux.
\<close>

theorem first_matching_asset_is_recorded_witness:
  "ListReleases (example_packages (Inr []) None None)
     (test_setup ''/tmp/gvm''
        (Inr [release ''v0.12.2'' [''fake-service-linux''],
              release ''v0.14.1'' [''fake-service-osx'', ''Fake-Service-Linux'', ''fake-service-linux'']]))
     ''''
   = Inr [(''v0.12.2'', ''https://example.org/v0.12.2/fake-service-linux''),
          (''v0.14.1'', ''https://example.org/v0.14.1/Fake-Service-Linux'')] \<and>
   ListReleases (example_packages (Inr []) None None)
     (test_setup ''/tmp/gvm''
        (Inr [release ''v0.12.2'' [''fake-service-linux''],
              release ''v0.14.1'' [''fake-service-osx'', ''fake-service.exe'']]))
     ''''
   = Inr [(''v0.12.2'', ''https://example.org/v0.12.2/fake-service-linux'')]"
proof -
  let ?p = "example_packages (Inr []) None None"
  let ?gr = "[release ''v0.12.2'' [''fake-service-linux'']]"
  let ?g = "release ''v0.14.1'' [''fake-service-osx'', ''Fake-Service-Linux'', ''fake-service-linux'']"
  let ?h = "release ''v0.14.1'' [''fake-service-osx'', ''fake-service.exe'']"
  let ?tags = "[(''v0.12.2'', ''https://example.org/v0.12.2/fake-service-linux'')]"
  let ?osx = "\<lparr>Name = ''fake-service-osx'', BrowserDownloadURL = ''https://example.org/v0.14.1/fake-service-osx''\<rparr>"
  let ?Linux = "\<lparr>Name = ''Fake-Service-Linux'', BrowserDownloadURL = ''https://example.org/v0.14.1/Fake-Service-Linux''\<rparr>"
  let ?linux = "\<lparr>Name = ''fake-service-linux'', BrowserDownloadURL = ''https://example.org/v0.14.1/fake-service-linux''\<rparr>"
  let ?exe = "\<lparr>Name = ''fake-service.exe'', BrowserDownloadURL = ''https://example.org/v0.14.1/fake-service.exe''\<rparr>"
  let ?v = "test_setup ''/tmp/gvm'' (Inr (?gr @ [?g]))"
  let ?w = "test_setup ''/tmp/gvm'' (Inr (?gr @ [?h]))"
  have before_v: "ListReleases ?p (?v\<lparr>client := \<lambda>organization repo. Inr ?gr\<rparr>) '''' = Inr ?tags"
    by code_simp
  have before_w: "ListReleases ?p (?w\<lparr>client := \<lambda>organization repo. Inr ?gr\<rparr>) '''' = Inr ?tags"
    by code_simp
  have listed_v: "client ?v (Organization (options ?v)) (Repo (options ?v)) = Inr (?gr @ [?g])"
    by (simp add: test_setup_def)
  have listed_w: "client ?w (Organization (options ?w)) (Repo (options ?w)) = Inr (?gr @ [?h])"
    by (simp add: test_setup_def)
  have assets_g: "Assets ?g = [?osx] @ ?Linux # [?linux]"
    by (simp add: release_def)
  have m1: "\<not> matching ?p ?v ?g ?osx" by code_simp
  have m2: "matching ?p ?v ?g ?Linux" by code_simp
  have m3: "\<forall>a\<in>set (Assets ?h). \<not> matching ?p ?w ?h a" by code_simp
  have 1: "ListReleases ?p ?v '''' =
             Inr (AList.update (TagName ?g) (BrowserDownloadURL ?Linux) ?tags)"
    using first_matching_asset_is_recorded [OF listed_v before_v] assets_g m1 m2
    by (metis empty_iff empty_set set_ConsD)
  have 2: "ListReleases ?p ?w '''' = Inr ?tags"
    using first_matching_asset_is_recorded [OF listed_w before_w] m3 by blast
  show ?thesis using 1 2 by (simp add: release_def)
qed

text \<open>
  The same at any place of the list, read off the catalog that is returned: when no
  other release has the tag, the entry under the tag is the address of the first
  matching asset, and there is no entry without a matching asset.
\<close>

lemma ListReleases_assets_other_key:
  "TagName g \<noteq> k \<Longrightarrow> map_of (ListReleases_assets p v g as tags) k = map_of tags k"
  by (induction as) (simp_all add: update_conv' Let_def)

lemma ListReleases_loop_other_key:
  assumes "ListReleases_loop p v gr constraint tags = Inr t" and "\<forall>h\<in>set gr. TagName h \<noteq> k"
  shows "map_of t k = map_of tags k"
  using assms
proof (induction gr arbitrary: tags)
  case Nil
  then show ?case by simp
next
  case (Cons g gr)
  have other: "TagName g \<noteq> k" and rest: "\<forall>h\<in>set gr. TagName h \<noteq> k"
    using Cons.prems(2) by simp_all
  have skip: ?case if "ListReleases_loop p v gr constraint tags = Inr t"
    using Cons.IH [OF that rest] .
  have take: ?case
    if "ListReleases_loop p v gr constraint (ListReleases_assets p v g (Assets g) tags) = Inr t"
    using Cons.IH [OF that rest] ListReleases_assets_other_key [OF other] by simp
  show ?case
  proof (cases "constraint = []")
    case True
    then show ?thesis using Cons.prems(1) take by simp
  next
    case False
    show ?thesis
    proof (cases "InRange p (TagName g) constraint")
      case (Inl err)
      then show ?thesis using False Cons.prems(1) by simp
    next
      case (Inr valid)
      then show ?thesis using False Cons.prems(1) skip take by (cases valid) simp_all
    qed
  qed
qed

lemma ListReleases_entry_of_release:
  assumes listed: "client v (Organization (options v)) (Repo (options v)) = Inr (gr @ g # rest)"
    and result: "ListReleases p v constraint = Inr tags"
    and passes: "constraint = [] \<or> InRange p (TagName g) constraint = Inr True"
    and unique: "\<forall>h\<in>set gr \<union> set rest. TagName h \<noteq> TagName g"
  shows "(\<forall>before a after.
            Assets g = before @ a # after \<and> (\<forall>b\<in>set before. \<not> matching p v g b) \<and> matching p v g a \<longrightarrow>
            map_of tags (TagName g) = Some (BrowserDownloadURL a)) \<and>
         ((\<forall>a\<in>set (Assets g). \<not> matching p v g a) \<longrightarrow> map_of tags (TagName g) = None)"
proof -
  from result listed have "ListReleases_loop p v (gr @ g # rest) constraint [] = Inr tags"
    by (simp add: ListReleases_def)
  then obtain t1 where t1: "ListReleases_loop p v gr constraint [] = Inr t1"
    and t2: "ListReleases_loop p v (g # rest) constraint t1 = Inr tags"
    by (auto simp: ListReleases_loop_append split: sum.splits)
  have k1: "map_of t1 (TagName g) = None"
    using ListReleases_loop_other_key [OF t1, of "TagName g"] unique by simp
  let ?scan = "ListReleases_assets p v g (Assets g) t1"
  have t3: "ListReleases_loop p v rest constraint ?scan = Inr tags"
  proof (cases "constraint = []")
    case True
    then show ?thesis using t2 by simp
  next
    case False
    then have "InRange p (TagName g) constraint = Inr True" using passes by simp
    then show ?thesis using t2 False by simp
  qed
  have k3: "map_of tags (TagName g) = map_of ?scan (TagName g)"
    using ListReleases_loop_other_key [OF t3, of "TagName g"] unique by simp
  show ?thesis
    unfolding k3 using k1 by (auto simp: assets_first_match assets_no_match update_conv')
qed

section \<open>The empty constraint\<close>

text \<open>
  Claim C10. With the empty constraint \<^verbatim>\<open>ListReleases\<close> and
  \<^verbatim>\<open>ListInstalledVersions\<close> validate nothing: the keys of the catalog are the tags of
  all releases that have a matching asset, and the names of all directory entries,
  whether they are semantic versions or not, and the result is the same whatever the
  semver package would answer.
\<close>

theorem unconstrained_catalog_is_not_validated:
  "(client v (Organization (options v)) (Repo (options v)) = Inr gr \<longrightarrow>
      (\<exists>tags. ListReleases p v [] = Inr tags \<and>
         fst ` set tags =
           {TagName g |g. g \<in> set gr \<and> (\<exists>a\<in>set (Assets g). matching p v g a)})) \<and>
   (ioutil_ReadDir p (ReleasesPath (options v)) = Inr files \<longrightarrow>
      (\<exists>versions. ListInstalledVersions p v [] = Inr versions \<and>
         fst ` set versions = set files)) \<and>
   (strings_ToLower p' = strings_ToLower p \<longrightarrow>
      ListReleases p' v [] = ListReleases p v []) \<and>
   (path_Join p' = path_Join p \<and> ioutil_ReadDir p' = ioutil_ReadDir p \<longrightarrow>
      ListInstalledVersions p' v [] = ListInstalledVersions p v [])"
proof (intro conjI impI)
  assume "client v (Organization (options v)) (Repo (options v)) = Inr gr"
  then show "\<exists>tags. ListReleases p v [] = Inr tags \<and>
         fst ` set tags =
           {TagName g |g. g \<in> set gr \<and> (\<exists>a\<in>set (Assets g). matching p v g a)}"
    using ListReleases_loop_unconstrained [of p v gr "[]"]
    by (simp add: ListReleases_def)
next
  assume "ioutil_ReadDir p (ReleasesPath (options v)) = Inr files"
  then show "\<exists>versions. ListInstalledVersions p v [] = Inr versions \<and>
         fst ` set versions = set files"
    using ListInstalledVersions_loop_unconstrained [of p v files "[]"]
    by (simp add: ListInstalledVersions_def)
next
  assume eq: "strings_ToLower p' = strings_ToLower p"
  show "ListReleases p' v [] = ListReleases p v []"
    by (simp add: ListReleases_def ListReleases_loop_packages [OF eq] split: sum.splits)
next
  assume eq: "path_Join p' = path_Join p \<and> ioutil_ReadDir p' = ioutil_ReadDir p"
  then have dir: "ioutil_ReadDir p' = ioutil_ReadDir p" and join: "path_Join p' = path_Join p"
    by simp_all
  show "ListInstalledVersions p' v [] = ListInstalledVersions p v []"
    by (simp add: ListInstalledVersions_def dir ListInstalledVersions_loop_packages [OF join]
          split: sum.splits)
qed


text \<open>The tag \<^verbatim>\<open>latest\<close> is not a semantic version and is a key of both catalogs.\<close>

theorem unconstrained_catalog_is_not_validated_witness:
  "semver_NewVersion (example_packages (Inr [''latest'', ''v0.14.1'']) None None) ''latest''
     = Inl (errorString ''Invalid Semantic Version'') \<and>
   (\<exists>tags.
      ListReleases (example_packages (Inr [''latest'', ''v0.14.1'']) None None)
        (test_setup ''/tmp/gvm''
           (Inr [release ''latest'' [''fake-service-linux''], release ''v0.14.1'' [''fake-service-linux'']]))
        [] = Inr tags \<and>
      ''latest'' \<in> fst ` set tags) \<and>
   (\<exists>versions.
      ListInstalledVersions (example_packages (Inr [''latest'', ''v0.14.1'']) None None)
        (test_setup ''/tmp/gvm''
           (Inr [release ''latest'' [''fake-service-linux''], release ''v0.14.1'' [''fake-service-linux'']]))
        [] = Inr versions \<and>
      ''latest'' \<in> fst ` set versions) \<and>
   ListReleases
     ((example_packages (Inr [''latest'', ''v0.14.1'']) None None)
        \<lparr>semver_NewVersion := \<lambda>s. Inl (errorString ''Invalid Semantic Version''),
         semver_NewConstraint := \<lambda>s. Inl (errorString ''improper constraint'')\<rparr>)
     (test_setup ''/tmp/gvm''
        (Inr [release ''latest'' [''fake-service-linux''], release ''v0.14.1'' [''fake-service-linux'']]))
     [] =
   ListReleases (example_packages (Inr [''latest'', ''v0.14.1'']) None None)
     (test_setup ''/tmp/gvm''
        (Inr [release ''latest'' [''fake-service-linux''], release ''v0.14.1'' [''fake-service-linux'']]))
     [] \<and>
   ListInstalledVersions
     ((example_packages (Inr [''latest'', ''v0.14.1'']) None None)
        \<lparr>semver_NewVersion := \<lambda>s. Inl (errorString ''Invalid Semantic Version''),
         semver_NewConstraint := \<lambda>s. Inl (errorString ''improper constraint'')\<rparr>)
     (test_setup ''/tmp/gvm''
        (Inr [release ''latest'' [''fake-service-linux''], release ''v0.14.1'' [''fake-service-linux'']]))
     [] =
   ListInstalledVersions (example_packages (Inr [''latest'', ''v0.14.1'']) None None)
     (test_setup ''/tmp/gvm''
        (Inr [release ''latest'' [''fake-service-linux''], release ''v0.14.1'' [''fake-service-linux'']]))
     []"
proof -
  let ?p = "example_packages (Inr [''latest'', ''v0.14.1'']) None None"
  let ?p' = "?p\<lparr>semver_NewVersion := \<lambda>s. Inl (errorString ''Invalid Semantic Version''),
         semver_NewConstraint := \<lambda>s. Inl (errorString ''improper constraint'')\<rparr>"
  let ?gr = "[release ''latest'' [''fake-service-linux''], release ''v0.14.1'' [''fake-service-linux'']]"
  let ?v = "test_setup ''/tmp/gvm'' (Inr ?gr)"
  have invalid: "semver_NewVersion ?p ''latest'' = Inl (errorString ''Invalid Semantic Version'')"
    by code_simp
  have listed: "client ?v (Organization (options ?v)) (Repo (options ?v)) = Inr ?gr"
    by (simp add: test_setup_def)
  have entries: "ioutil_ReadDir ?p (ReleasesPath (options ?v)) = Inr [''latest'', ''v0.14.1'']"
    by (simp add: example_packages_def)
  have lower: "strings_ToLower ?p' = strings_ToLower ?p" by simp
  have join: "path_Join ?p' = path_Join ?p \<and> ioutil_ReadDir ?p' = ioutil_ReadDir ?p" by simp
  have match: "matching ?p ?v (release ''latest'' [''fake-service-linux''])
     \<lparr>Name = ''fake-service-linux'', BrowserDownloadURL = ''https://example.org/latest/fake-service-linux''\<rparr>"
    by code_simp
  have asset: "\<lparr>Name = ''fake-service-linux'', BrowserDownloadURL = ''https://example.org/latest/fake-service-linux''\<rparr>
      \<in> set (Assets (release ''latest'' [''fake-service-linux'']))"
    by (simp add: release_def)
  have tag: "TagName (release ''latest'' [''fake-service-linux'']) = ''latest''"
    by (simp add: release_def)
  note inst = unconstrained_catalog_is_not_validated
    [of ?v ?gr ?p "[''latest'', ''v0.14.1'']" ?p']
  from inst [THEN conjunct1, THEN mp, OF listed]
  obtain tags where tags: "ListReleases ?p ?v [] = Inr tags"
    "fst ` set tags = {TagName g |g. g \<in> set ?gr \<and> (\<exists>a\<in>set (Assets g). matching ?p ?v g a)}"
    by blast
  have "''latest'' \<in> {TagName g |g. g \<in> set ?gr \<and> (\<exists>a\<in>set (Assets g). matching ?p ?v g a)}"
  proof (rule CollectI, intro exI conjI bexI)
    show "''latest'' = TagName (release ''latest'' [''fake-service-linux''])"
      using tag by simp
    show "release ''latest'' [''fake-service-linux''] \<in> set ?gr" by simp
    show "matching ?p ?v (release ''latest'' [''fake-service-linux''])
     \<lparr>Name = ''fake-service-linux'', BrowserDownloadURL = ''https://example.org/latest/fake-service-linux''\<rparr>"
      by (rule match)
    show "\<lparr>Name = ''fake-service-linux'', BrowserDownloadURL = ''https://example.org/latest/fake-service-linux''\<rparr>
      \<in> set (Assets (release ''latest'' [''fake-service-linux'']))"
      by (rule asset)
  qed
  then have 1: "\<exists>tags. ListReleases ?p ?v [] = Inr tags \<and> ''latest'' \<in> fst ` set tags"
    using tags by blast
  from inst [THEN conjunct2, THEN conjunct1, THEN mp, OF entries]
  obtain versions where versions: "ListInstalledVersions ?p ?v [] = Inr versions"
    "fst ` set versions = set [''latest'', ''v0.14.1'']"
    by blast
  have "''latest'' \<in> fst ` set versions" unfolding versions(2) by simp
  then have 2: "\<exists>versions. ListInstalledVersions ?p ?v [] = Inr versions \<and>
      ''latest'' \<in> fst ` set versions"
    using versions(1) by blast
  have 3: "ListReleases ?p' ?v [] = ListReleases ?p ?v []"
    using inst [THEN conjunct2, THEN conjunct2, THEN conjunct1, THEN mp, OF lower] .
  have 4: "ListInstalledVersions ?p' ?v [] = ListInstalledVersions ?p ?v []"
    using inst [THEN conjunct2, THEN conjunct2, THEN conjunct2, THEN mp, OF join] .
  from invalid 1 2 3 4 show ?thesis by blast
qed

section \<open>Tags and the versions given to the naming functions\<close>

text \<open>
  \<^verbatim>\<open>strings.TrimLeft(tag, "v")\<close> takes the leading \<^verbatim>\<open>v\<close>s off: the tag is some
  \<^verbatim>\<open>v\<close>s followed by the result, and the result does not start with \<^verbatim>\<open>v\<close>.
\<close>

lemma TrimLeft_v:
  "\<exists>n. tag = replicate n CHR ''v'' @ TrimLeft tag ''v'' \<and>
       (\<forall>rest. TrimLeft tag ''v'' \<noteq> CHR ''v'' # rest)"
proof -
  let ?P = "\<lambda>c. c = CHR ''v''"
  have trim: "TrimLeft tag ''v'' = dropWhile ?P tag" by (simp add: TrimLeft_def)
  have "takeWhile ?P tag = replicate (length (takeWhile ?P tag)) CHR ''v''"
    by (rule replicate_length_same [symmetric]) (auto dest: set_takeWhileD)
  then have "tag = replicate (length (takeWhile ?P tag)) CHR ''v'' @ dropWhile ?P tag"
    by (metis takeWhile_dropWhile_id)
  moreover have "dropWhile ?P tag \<noteq> CHR ''v'' # rest" for rest
    using hd_dropWhile [of ?P tag] by (metis list.sel(1) list.distinct(1))
  ultimately show ?thesis unfolding trim by blast
qed

text \<open>
  Claim C6. The key of a catalog entry is the tag of a release, or the name of a
  directory entry, as it is; \<^verbatim>\<open>DownloadRelease\<close> creates the directory named by the
  tag as it is. The version given to \<^verbatim>\<open>AssetNameFunc\<close> and \<^verbatim>\<open>ExeNameFunc\<close> is the
  tag with its leading \<^verbatim>\<open>v\<close> taken off: the address stored under a tag belongs to an
  asset whose name is, up to case, what \<^verbatim>\<open>AssetNameFunc\<close> computes for the stripped
  tag, and the paths are built from what \<^verbatim>\<open>ExeNameFunc\<close> computes for the stripped
  tag.
\<close>

theorem tags_are_kept_and_versions_are_stripped:
  "(client v (Organization (options v)) (Repo (options v)) = Inr gr \<and>
    ListReleases p v constraint = Inr tags \<and> map_of tags k = Some url \<longrightarrow>
      (\<exists>g\<in>set gr. \<exists>a\<in>set (Assets g).
          k = TagName g \<and> url = BrowserDownloadURL a \<and>
          strings_ToLower p (Name a) =
            strings_ToLower p
              (AssetNameFunc (options v) (TrimLeft (TagName g) ''v'')
                 (GOOS (options v)) (GOARCH (options v))))) \<and>
   (ioutil_ReadDir p (ReleasesPath (options v)) = Inr files \<and>
    ListInstalledVersions p v constraint = Inr versions \<and> map_of versions k = Some location \<longrightarrow>
      k \<in> set files \<and>
      location =
        path_Join p [ReleasesPath (options v), k,
          ExeNameFunc (options v) (TrimLeft k ''v'') (GOOS (options v)) (GOARCH (options v))]) \<and>
   (DownloadRelease p v tag address = (Inr fp, effects) \<longrightarrow>
      hd effects = Call_MkdirAll (path_Join p [ReleasesPath (options v), tag]) \<and>
      fp =
        path_Join p [path_Join p [ReleasesPath (options v), tag],
          ExeNameFunc (options v) (TrimLeft tag ''v'') (GOOS (options v)) (GOARCH (options v))]) \<and>
   (\<exists>n. tag = replicate n CHR ''v'' @ TrimLeft tag ''v'' \<and>
        (\<forall>rest. TrimLeft tag ''v'' \<noteq> CHR ''v'' # rest))"
proof -
  have remote: "\<exists>g\<in>set gr. \<exists>a\<in>set (Assets g).
          k = TagName g \<and> url = BrowserDownloadURL a \<and>
          strings_ToLower p (Name a) =
            strings_ToLower p
              (AssetNameFunc (options v) (TrimLeft (TagName g) ''v'')
                 (GOOS (options v)) (GOARCH (options v)))"
    if c: "client v (Organization (options v)) (Repo (options v)) = Inr gr"
      and l: "ListReleases p v constraint = Inr tags" and m: "map_of tags k = Some url"
  proof -
    from l have "ListReleases_loop p v gr constraint [] = Inr tags"
      unfolding ListReleases_def c by simp
    from ListReleases_loop_map_of [OF this m] show ?thesis
      by (auto simp: matching_def)
  qed
  have installed: "k \<in> set files \<and>
      location =
        path_Join p [ReleasesPath (options v), k,
          ExeNameFunc (options v) (TrimLeft k ''v'') (GOOS (options v)) (GOARCH (options v))]"
    if c: "ioutil_ReadDir p (ReleasesPath (options v)) = Inr files"
      and l: "ListInstalledVersions p v constraint = Inr versions"
      and m: "map_of versions k = Some location"
  proof -
    from l have "versions = ListInstalledVersions_loop p v files constraint []"
      unfolding ListInstalledVersions_def c by simp
    with m have "map_of (ListInstalledVersions_loop p v files constraint []) k = Some location"
      by simp
    from ListInstalledVersions_loop_map_of [OF this] show ?thesis by simp
  qed
  have download: "hd effects = Call_MkdirAll (path_Join p [ReleasesPath (options v), tag]) \<and>
      fp =
        path_Join p [path_Join p [ReleasesPath (options v), tag],
          ExeNameFunc (options v) (TrimLeft tag ''v'') (GOOS (options v)) (GOARCH (options v))]"
    if "DownloadRelease p v tag address = (Inr fp, effects)"
    using that by (auto simp: DownloadRelease_def Let_def split: option.splits)
  from remote installed download TrimLeft_v [of tag] show ?thesis by blast
qed

text \<open>
  With a naming function that uses the version: the release \<^verbatim>\<open>v0.14.1\<close> has an asset
  named after \<^verbatim>\<open>v0.14.1\<close> and one named after \<^verbatim>\<open>0.14.1\<close>; the second is the one
  stored, under the key \<^verbatim>\<open>v0.14.1\<close>.
\<close>

theorem tags_are_kept_and_versions_are_stripped_witness:
  "ListReleases (example_packages (Inr [''v0.14.1'']) None None)
     (test_setup_version ''/tmp/gvm''
        (Inr [release ''v0.14.1'' [''fake-service_v0.14.1_linux_x64'', ''fake-service_0.14.1_linux_x64'']]))
     []
     = Inr [(''v0.14.1'', ''https://example.org/v0.14.1/fake-service_0.14.1_linux_x64'')] \<and>
   (\<exists>g\<in>set [release ''v0.14.1'' [''fake-service_v0.14.1_linux_x64'', ''fake-service_0.14.1_linux_x64'']].
      \<exists>a\<in>set (Assets g).
        ''v0.14.1'' = TagName g \<and>
        ''https://example.org/v0.14.1/fake-service_0.14.1_linux_x64'' = BrowserDownloadURL a \<and>
        example_ToLower (Name a) =
          example_ToLower (nf_version (TrimLeft (TagName g) ''v'') ''linux'' ''x64'')) \<and>
   ListInstalledVersions (example_packages (Inr [''v0.14.1'']) None None)
     (test_setup_version ''/tmp/gvm''
        (Inr [release ''v0.14.1'' [''fake-service_v0.14.1_linux_x64'', ''fake-service_0.14.1_linux_x64'']]))
     []
     = Inr [(''v0.14.1'', ''/tmp/gvm/v0.14.1/fake-service_0.14.1_linux_x64'')] \<and>
   ''/tmp/gvm/v0.14.1/fake-service_0.14.1_linux_x64'' =
     example_Join [''/tmp/gvm'', ''v0.14.1'', nf_version (TrimLeft ''v0.14.1'' ''v'') ''linux'' ''x64''] \<and>
   DownloadRelease (example_packages (Inr [''v0.14.1'']) None None)
     (test_setup_version ''/tmp/gvm''
        (Inr [release ''v0.14.1'' [''fake-service_v0.14.1_linux_x64'', ''fake-service_0.14.1_linux_x64'']]))
     ''v0.14.1'' ''https://example.org/v0.14.1/fake-service_0.14.1_linux_x64''
     = (Inr ''/tmp/gvm/v0.14.1/fake-service_0.14.1_linux_x64'',
        [Call_MkdirAll ''/tmp/gvm/v0.14.1'',
         Call_GetAny ''/tmp/gvm/v0.14.1'' ''https://example.org/v0.14.1/fake-service_0.14.1_linux_x64'']) \<and>
   hd [Call_MkdirAll ''/tmp/gvm/v0.14.1'',
       Call_GetAny ''/tmp/gvm/v0.14.1'' ''https://example.org/v0.14.1/fake-service_0.14.1_linux_x64'']
     = Call_MkdirAll (example_Join [''/tmp/gvm'', ''v0.14.1'']) \<and>
   ''/tmp/gvm/v0.14.1/fake-service_0.14.1_linux_x64'' =
     example_Join [example_Join [''/tmp/gvm'', ''v0.14.1''],
       nf_version (TrimLeft ''v0.14.1'' ''v'') ''linux'' ''x64''] \<and>
   (\<exists>n. ''v0.14.1'' = replicate n CHR ''v'' @ TrimLeft ''v0.14.1'' ''v'' \<and>
        (\<forall>rest. TrimLeft ''v0.14.1'' ''v'' \<noteq> CHR ''v'' # rest))"
proof -
  let ?p = "example_packages (Inr [''v0.14.1'']) None None"
  let ?gr = "[release ''v0.14.1'' [''fake-service_v0.14.1_linux_x64'', ''fake-service_0.14.1_linux_x64'']]"
  let ?v = "test_setup_version ''/tmp/gvm'' (Inr ?gr)"
  let ?url = "''https://example.org/v0.14.1/fake-service_0.14.1_linux_x64''"
  let ?tags = "[(''v0.14.1'', ?url)]"
  let ?fp = "''/tmp/gvm/v0.14.1/fake-service_0.14.1_linux_x64''"
  let ?versions = "[(''v0.14.1'', ?fp)]"
  let ?effects = "[Call_MkdirAll ''/tmp/gvm/v0.14.1'', Call_GetAny ''/tmp/gvm/v0.14.1'' ?url]"
  have listed: "client ?v (Organization (options ?v)) (Repo (options ?v)) = Inr ?gr"
    by (simp add: test_setup_version_def)
  have remote: "ListReleases ?p ?v [] = Inr ?tags" by code_simp
  have entries: "ioutil_ReadDir ?p (ReleasesPath (options ?v)) = Inr [''v0.14.1'']"
    by (simp add: example_packages_def)
  have installed: "ListInstalledVersions ?p ?v [] = Inr ?versions" by code_simp
  have download: "DownloadRelease ?p ?v ''v0.14.1'' ?url = (Inr ?fp, ?effects)" by code_simp
  have sel: "strings_ToLower ?p = example_ToLower" "path_Join ?p = example_Join"
    "AssetNameFunc (options ?v) = nf_version" "ExeNameFunc (options ?v) = nf_version"
    "GOOS (options ?v) = ''linux''" "GOARCH (options ?v) = ''x64''"
    "ReleasesPath (options ?v) = ''/tmp/gvm''"
    by (simp_all add: example_packages_def test_setup_version_def)
  note inst = tags_are_kept_and_versions_are_stripped
    [of ?v ?gr ?p "[]" ?tags "''v0.14.1''" ?url "[''v0.14.1'']" ?versions ?fp
        "''v0.14.1''" ?url ?fp ?effects]
  have hyp1: "client ?v (Organization (options ?v)) (Repo (options ?v)) = Inr ?gr \<and>
      ListReleases ?p ?v [] = Inr ?tags \<and> map_of ?tags ''v0.14.1'' = Some ?url"
    using listed remote by simp
  have hyp2: "ioutil_ReadDir ?p (ReleasesPath (options ?v)) = Inr [''v0.14.1''] \<and>
      ListInstalledVersions ?p ?v [] = Inr ?versions \<and> map_of ?versions ''v0.14.1'' = Some ?fp"
    using entries installed by simp
  have 1: "\<exists>g\<in>set ?gr. \<exists>a\<in>set (Assets g).
        ''v0.14.1'' = TagName g \<and> ?url = BrowserDownloadURL a \<and>
        example_ToLower (Name a) =
          example_ToLower (nf_version (TrimLeft (TagName g) ''v'') ''linux'' ''x64'')"
    using inst [THEN conjunct1, THEN mp, OF hyp1] unfolding sel .
  have 2: "?fp = example_Join [''/tmp/gvm'', ''v0.14.1'', nf_version (TrimLeft ''v0.14.1'' ''v'') ''linux'' ''x64'']"
    using inst [THEN conjunct2, THEN conjunct1, THEN mp, OF hyp2, THEN conjunct2] unfolding sel .
  have 3: "hd ?effects = Call_MkdirAll (example_Join [''/tmp/gvm'', ''v0.14.1'']) \<and>
     ?fp = example_Join [example_Join [''/tmp/gvm'', ''v0.14.1''],
       nf_version (TrimLeft ''v0.14.1'' ''v'') ''linux'' ''x64'']"
    using inst [THEN conjunct2, THEN conjunct2, THEN conjunct1, THEN mp, OF download]
    unfolding sel .
  note 4 = inst [THEN conjunct2, THEN conjunct2, THEN conjunct2]
  from remote 1 installed 2 download 3 4 show ?thesis by blast
qed

section \<open>The steps of DownloadRelease\<close>

text \<open>
  Claim C9. \<^verbatim>\<open>DownloadRelease\<close> first calls \<^verbatim>\<open>os.MkdirAll\<close> on the join of the
  releases path and the tag, and returns the wrapped error, without calling the
  fetcher, when that fails. Otherwise it calls the fetcher once with that directory
  and the address, and returns the wrapped error when the fetcher fails. Otherwise it
  returns the join of the directory and the name that \<^verbatim>\<open>ExeNameFunc\<close> computes for the
  stripped tag, which is the join of the releases path, the tag and that name when
  joining is associative; nothing else is consulted, so the file is not checked to
  exist.
\<close>

theorem DownloadRelease_steps:
  "(os_MkdirAll p (path_Join p [ReleasesPath (options v), tag]) = Some err \<longrightarrow>
      DownloadRelease p v tag url =
        (Inl (Errorf ''Unable to create temporary folder'' err),
         [Call_MkdirAll (path_Join p [ReleasesPath (options v), tag])])) \<and>
   (os_MkdirAll p (path_Join p [ReleasesPath (options v), tag]) = None \<and>
    getter_GetAny p (path_Join p [ReleasesPath (options v), tag]) url = Some err \<longrightarrow>
      DownloadRelease p v tag url =
        (Inl (Errorf ''Unable to download file'' err),
         [Call_MkdirAll (path_Join p [ReleasesPath (options v), tag]),
          Call_GetAny (path_Join p [ReleasesPath (options v), tag]) url])) \<and>
   (os_MkdirAll p (path_Join p [ReleasesPath (options v), tag]) = None \<and>
    getter_GetAny p (path_Join p [ReleasesPath (options v), tag]) url = None \<longrightarrow>
      DownloadRelease p v tag url =
        (Inr (path_Join p [path_Join p [ReleasesPath (options v), tag],
                ExeNameFunc (options v) (TrimLeft tag ''v'') (GOOS (options v)) (GOARCH (options v))]),
         [Call_MkdirAll (path_Join p [ReleasesPath (options v), tag]),
          Call_GetAny (path_Join p [ReleasesPath (options v), tag]) url]) \<and>
      ((\<forall>dir x. path_Join p [path_Join p [ReleasesPath (options v), dir], x] =
                path_Join p [ReleasesPath (options v), dir, x]) \<longrightarrow>
       fst (DownloadRelease p v tag url) =
         Inr (path_Join p [ReleasesPath (options v), tag,
                ExeNameFunc (options v) (TrimLeft tag ''v'') (GOOS (options v)) (GOARCH (options v))])))"
  by (simp add: DownloadRelease_def Let_def)

lemma example_Join_nested:
  "example_Join [example_Join [root, dir], x] = example_Join [root, dir, x]"
  by (simp add: example_Join_def)

theorem DownloadRelease_steps_witness:
  "DownloadRelease (example_packages (Inr []) (Some (errorString ''permission denied'')) None)
     (test_setup ''/tmp/gvm'' (Inr [])) ''v0.12.2'' ''https://example.org/v0.12.2/fake-service-linux''
     = (Inl (Errorf ''Unable to create temporary folder'' (errorString ''permission denied'')),
        [Call_MkdirAll ''/tmp/gvm/v0.12.2'']) \<and>
   DownloadRelease (example_packages (Inr []) None (Some (errorString ''bad response code: 404'')))
     (test_setup ''/tmp/gvm'' (Inr [])) ''v0.12.2'' ''https://example.org/v0.12.2/fake-service-linux''
     = (Inl (Errorf ''Unable to download file'' (errorString ''bad response code: 404'')),
        [Call_MkdirAll ''/tmp/gvm/v0.12.2'',
         Call_GetAny ''/tmp/gvm/v0.12.2'' ''https://example.org/v0.12.2/fake-service-linux'']) \<and>
   DownloadRelease (example_packages (Inr []) None None)
     (test_setup ''/tmp/gvm'' (Inr [])) ''v0.12.2'' ''https://example.org/v0.12.2/fake-service-linux''
     = (Inr ''/tmp/gvm/v0.12.2/fake-service-linux'',
        [Call_MkdirAll ''/tmp/gvm/v0.12.2'',
         Call_GetAny ''/tmp/gvm/v0.12.2'' ''https://example.org/v0.12.2/fake-service-linux'']) \<and>
   fst (DownloadRelease (example_packages (Inr []) None None)
     (test_setup ''/tmp/gvm'' (Inr [])) ''v0.12.2'' ''https://example.org/v0.12.2/fake-service-linux'')
     = Inr (example_Join [''/tmp/gvm'', ''v0.12.2'', ''fake-service-linux''])"
proof -
  let ?denied = "errorString ''permission denied''"
  let ?missing = "errorString ''bad response code: 404''"
  let ?p1 = "example_packages (Inr []) (Some ?denied) None"
  let ?p2 = "example_packages (Inr []) None (Some ?missing)"
  let ?p3 = "example_packages (Inr []) None None"
  let ?v = "test_setup ''/tmp/gvm'' (Inr [])"
  let ?url = "''https://example.org/v0.12.2/fake-service-linux''"
  have dir: "path_Join (example_packages entries mkdir fetch) [ReleasesPath (options ?v), ''v0.12.2'']
               = ''/tmp/gvm/v0.12.2''" for entries mkdir fetch
    by (simp add: example_packages_def test_setup_def example_Join_def)
  have exe: "ExeNameFunc (options ?v) (TrimLeft ''v0.12.2'' ''v'') (GOOS (options ?v)) (GOARCH (options ?v))
               = ''fake-service-linux''"
    by (simp add: test_setup_def nf_def)
  have fp: "path_Join ?p3 [''/tmp/gvm/v0.12.2'', ''fake-service-linux''] = ''/tmp/gvm/v0.12.2/fake-service-linux''"
    by (simp add: example_packages_def example_Join_def)
  have fp3: "path_Join ?p3 [ReleasesPath (options ?v), ''v0.12.2'', ''fake-service-linux'']
     = example_Join [''/tmp/gvm'', ''v0.12.2'', ''fake-service-linux'']"
    by (simp add: example_packages_def test_setup_def)
  have mk1: "os_MkdirAll ?p1 (path_Join ?p1 [ReleasesPath (options ?v), ''v0.12.2'']) = Some ?denied"
    by (simp add: example_packages_def)
  have mk2: "os_MkdirAll ?p2 (path_Join ?p2 [ReleasesPath (options ?v), ''v0.12.2'']) = None \<and>
    getter_GetAny ?p2 (path_Join ?p2 [ReleasesPath (options ?v), ''v0.12.2'']) ?url = Some ?missing"
    by (simp add: example_packages_def)
  have mk3: "os_MkdirAll ?p3 (path_Join ?p3 [ReleasesPath (options ?v), ''v0.12.2'']) = None \<and>
    getter_GetAny ?p3 (path_Join ?p3 [ReleasesPath (options ?v), ''v0.12.2'']) ?url = None"
    by (simp add: example_packages_def)
  have nested: "\<forall>dir x. path_Join ?p3 [path_Join ?p3 [ReleasesPath (options ?v), dir], x] =
                path_Join ?p3 [ReleasesPath (options ?v), dir, x]"
    by (simp add: example_packages_def example_Join_nested)
  have 1: "DownloadRelease ?p1 ?v ''v0.12.2'' ?url =
        (Inl (Errorf ''Unable to create temporary folder'' ?denied), [Call_MkdirAll ''/tmp/gvm/v0.12.2''])"
    using DownloadRelease_steps [of ?p1 ?v "''v0.12.2''" ?denied ?url, THEN conjunct1, THEN mp, OF mk1]
    unfolding dir .
  have 2: "DownloadRelease ?p2 ?v ''v0.12.2'' ?url =
        (Inl (Errorf ''Unable to download file'' ?missing),
         [Call_MkdirAll ''/tmp/gvm/v0.12.2'', Call_GetAny ''/tmp/gvm/v0.12.2'' ?url])"
    using DownloadRelease_steps [of ?p2 ?v "''v0.12.2''" ?missing ?url,
        THEN conjunct2, THEN conjunct1, THEN mp, OF mk2]
    unfolding dir .
  note 3 = DownloadRelease_steps [of ?p3 ?v "''v0.12.2''" ?missing ?url,
        THEN conjunct2, THEN conjunct2, THEN mp, OF mk3]
  have 4: "DownloadRelease ?p3 ?v ''v0.12.2'' ?url =
        (Inr ''/tmp/gvm/v0.12.2/fake-service-linux'',
         [Call_MkdirAll ''/tmp/gvm/v0.12.2'', Call_GetAny ''/tmp/gvm/v0.12.2'' ?url])"
    using 3 [THEN conjunct1] unfolding dir exe fp .
  have 5: "fst (DownloadRelease ?p3 ?v ''v0.12.2'' ?url) =
     Inr (example_Join [''/tmp/gvm'', ''v0.12.2'', ''fake-service-linux''])"
    using 3 [THEN conjunct2, THEN mp, OF nested] unfolding exe fp3 .
  from 1 2 4 5 show ?thesis by blast
qed

section \<open>Tags and constraints that do not parse\<close>

text \<open>
  \<^verbatim>\<open>InRange\<close> returns an error for a constraint that does not parse and for a version
  that does not parse. \<^verbatim>\<open>ListReleases\<close> returns on either; \<^verbatim>\<open>ListInstalledVersions\<close>
  skips the entry on either.
\<close>

lemma ListReleases_loop_unparseable_tag:
  assumes "constraint \<noteq> []" and "g \<in> set gr" and "semver_NewVersion p (TagName g) = Inl e"
  shows "\<exists>err. ListReleases_loop p v gr constraint tags = Inl err"
  using assms(2)
proof (induction gr arbitrary: tags)
  case Nil
  then show ?case by simp
next
  case (Cons h gr)
  show ?case
  proof (cases "InRange p (TagName h) constraint")
    case (Inl err)
    then show ?thesis using assms(1) by simp
  next
    case (Inr valid)
    then have "h \<noteq> g" using assms(3) by (auto simp: InRange_def split: sum.splits)
    then have "g \<in> set gr" using Cons.prems by simp
    then show ?thesis using Cons.IH Inr assms(1) by simp
  qed
qed

lemma ListInstalledVersions_loop_malformed:
  assumes "constraint \<noteq> []" and "semver_NewConstraint p constraint = Inl err"
  shows "ListInstalledVersions_loop p v files constraint versions = versions"
proof (induction files)
  case Nil
  show ?case by simp
next
  case (Cons f files)
  have "InRange p f constraint = Inl (Errorf ''Invalid sematic version constraint'' err)"
    using assms(2) by (simp add: InRange_def)
  then show ?case using assms(1) Cons.IH by simp
qed

text \<open>
  Claim C1 is not what the program does. With the constraint \<^verbatim>\<open>~1.0.0\<close>, which
  parses, the release \<^verbatim>\<open>v1.0.0\<close> alone gives a catalog with that release; with the
  release \<^verbatim>\<open>latest\<close> added to the list, \<^verbatim>\<open>ListReleases\<close> returns the error of
  \<^verbatim>\<open>InRange\<close> for that tag and no catalog.
\<close>

theorem ListReleases_fails_on_non_semver_tag:
  "semver_NewConstraint (example_packages (Inr []) None None) ''~1.0.0'' = Inr ((1, 0, 0), (1, 1, 0)) \<and>
   semver_NewVersion (example_packages (Inr []) None None) ''latest''
     = Inl (errorString ''Invalid Semantic Version'') \<and>
   ListReleases (example_packages (Inr []) None None)
     (test_setup ''/tmp/gvm'' (Inr [release ''v1.0.0'' [''fake-service-linux'']]))
     ''~1.0.0''
     = Inr [(''v1.0.0'', ''https://example.org/v1.0.0/fake-service-linux'')] \<and>
   ListReleases (example_packages (Inr []) None None)
     (test_setup ''/tmp/gvm''
        (Inr [release ''v1.0.0'' [''fake-service-linux''],
              release ''latest'' [''fake-service-linux'']]))
     ''~1.0.0''
     = Inl (Errorf ''Invalid sematic version constraint''
             (Errorf ''Invalid sematic version'' (errorString ''Invalid Semantic Version'')))"
  by code_simp

text \<open>
  For every list of directory entries and every constraint that is not empty and does
  not parse, \<^verbatim>\<open>ListInstalledVersions\<close> skips every entry and returns the empty catalog
  and no error.
\<close>

lemma ListInstalledVersions_swallows_constraint_error:
  assumes "constraint \<noteq> []"
    and "semver_NewConstraint p constraint = Inl err"
    and "ioutil_ReadDir p (ReleasesPath (options v)) = Inr files"
  shows "ListInstalledVersions p v constraint = Inr []"
  using assms by (simp add: ListInstalledVersions_def ListInstalledVersions_loop_malformed)

text \<open>
  Claim C2 is not what the program does. With the malformed constraint
  \<^verbatim>\<open>not-a-range\<close>, for which \<^verbatim>\<open>ListReleases\<close> returns the error of \<^verbatim>\<open>InRange\<close> at
  its first release, \<^verbatim>\<open>ListInstalledVersions\<close> returns a result: the empty catalog and
  no error.
\<close>

theorem ListInstalledVersions_returns_on_malformed_constraint:
  "semver_NewConstraint (example_packages (Inr [''v0.14.1'']) None None) ''not-a-range''
     = Inl (errorString ''improper constraint: not-a-range'') \<and>
   ListReleases (example_packages (Inr [''v0.14.1'']) None None)
     (test_setup ''/tmp/gvm'' (Inr [release ''v0.14.1'' [''fake-service-linux'']])) ''not-a-range''
     = Inl (Errorf ''Invalid sematic version constraint''
             (Errorf ''Invalid sematic version constraint''
                (errorString ''improper constraint: not-a-range''))) \<and>
   ListInstalledVersions (example_packages (Inr [''v0.14.1'']) None None)
     (test_setup ''/tmp/gvm'' (Inr [release ''v0.14.1'' [''fake-service-linux'']])) ''not-a-range''
     = Inr []"
  by code_simp

end
